theory Spec2Isabelle
  imports Complex_Main "HOL-Library.Multiset" "HOL-Library.Extended_Nat" "HOL-Library.Log_Nat"
begin

section \<open>Key model and key generators of spring/docgen.py\<close>

text \<open>
  Python exceptions the modelled functions can raise. A function that can raise returns
  \<open>error + 'a\<close>, with \<open>Inl\<close> for the exception.
\<close>

datatype error = ValueError | ZeroDivisionError | TypeError

text \<open>
  \<open>class Key\<close>: the four attributes set by \<open>__init__\<close>. Python's unbounded integers are
  \<open>int\<close>; the formatter is the string the source compares against.
\<close>

record Key =
  number :: int
  prefix :: string
  hit :: bool
  fmtr :: string

definition Key_init :: "int \<Rightarrow> string \<Rightarrow> string \<Rightarrow> bool \<Rightarrow> Key" where
  "Key_init n p f h = \<lparr>number = n, prefix = p, hit = h, fmtr = f\<rparr>"

subsection \<open>The random sources\<close>

text \<open>
  \<open>random.randrange(start, stop)\<close> raises \<open>ValueError\<close> on an empty range and otherwise
  returns \<open>start + randbelow(stop - start)\<close>. The raw draw \<open>u\<close> is any natural number; it is
  reduced into the width, so every value of the range is reached and no other.
  \<open>random.randint(a, b)\<close> is \<open>randrange(a, b + 1)\<close>.
\<close>

definition randrange :: "nat \<Rightarrow> int \<Rightarrow> int \<Rightarrow> error + int" where
  "randrange u start stop =
     (if start < stop then Inr (start + int u mod (stop - start)) else Inl ValueError)"

definition randint :: "nat \<Rightarrow> int \<Rightarrow> int \<Rightarrow> error + int" where
  "randint u a b = randrange u a (b + 1)"

text \<open>
  Truncation toward zero of an exact quotient. It is used for
  \<open>int(n * p / 100)\<close>, where the quotient of the two integers is correctly rounded to a
  double before \<open>int\<close> truncates it: while \<open>n * p\<close> stays below \<open>2 ^ 53\<close> the rounding
  cannot cross an integer and both truncations agree.
\<close>

definition py_int :: "real \<Rightarrow> int" where
  "py_int x = (if 0 \<le> x then \<lfloor>x\<rfloor> else \<lceil>x\<rceil>)"

subsection \<open>Double-precision floats\<close>

text \<open>
  A finite double is a dyadic rational. The pair \<open>(a, k)\<close> stands for \<open>a / 2 ^ k\<close>; it is a
  double when \<open>a\<close> has at most 53 significant bits. The exponent range is not modelled:
  the numbers here stay far below \<open>2 ^ 1024\<close>, and a product too small for a normal double
  is below 1 and truncates to 0 with or without the loss of precision.
\<close>

type_synonym dyadic = "int \<times> nat"

definition dval :: "dyadic \<Rightarrow> real" where
  "dval d = real_of_int (fst d) / 2 ^ snd d"

text \<open>
  Rounding an integer to 53 significant bits, to nearest and ties to even, as every
  double operation does with its exact result.
\<close>

definition round53 :: "int \<Rightarrow> int" where
  "round53 a =
     (let e = nat (bitlen \<bar>a\<bar> - 53) in
      if e = 0 then a
      else let q = \<bar>a\<bar> div 2 ^ e;
               rest = \<bar>a\<bar> mod 2 ^ e;
               half = 2 ^ (e - 1);
               q' = (if half < rest \<or> (rest = half \<and> odd q) then q + 1 else q)
           in sgn a * (q' * 2 ^ e))"

text \<open>The conversion of a Python integer to a float, as \<open>float * int\<close> performs it.\<close>

definition float_of_int :: "int \<Rightarrow> dyadic" where
  "float_of_int n = (round53 n, 0)"

definition float_mul :: "dyadic \<Rightarrow> dyadic \<Rightarrow> dyadic" where
  "float_mul x y = (round53 (fst x * fst y), snd x + snd y)"

text \<open>Python's \<open>int(x)\<close> on a float: truncation toward zero.\<close>

definition int_of_float :: "dyadic \<Rightarrow> int" where
  "int_of_float x =
     (if 0 \<le> fst x then fst x div 2 ^ snd x else - ((- fst x) div 2 ^ snd x))"

text \<open>
  A random double that is not negative, from raw material: the mantissa is reduced below
  \<open>2 ^ 53\<close>, so every pair gives a double and every double \<open>m / 2 ^ k\<close> is reached.
\<close>

definition double_of_raw :: "nat \<times> nat \<Rightarrow> dyadic" where
  "double_of_raw raw = (int (fst raw mod 2 ^ 53), snd raw)"

subsection \<open>Key formatters\<close>

text \<open>
  The conversions \<open>'%0wd' % k\<close> and \<open>'%0wx' % k\<close>: the digits of \<open>|k|\<close> in base 10 or 16
  (lower case), zero-padded on the left to the width \<open>w\<close>, a minus sign counting toward
  the width; never truncated.
\<close>

definition digit_char :: "nat \<Rightarrow> char" where
  "digit_char d = (if d < 10 then char_of (48 + d) else char_of (87 + d))"

function str_base :: "nat \<Rightarrow> nat \<Rightarrow> string" where
  "str_base b n =
     (if n < b \<or> b < 2 then [digit_char n] else str_base b (n div b) @ [digit_char (n mod b)])"
  by pat_completeness auto
termination
  by (relation "measure snd") auto

declare str_base.simps [simp del]

definition fmt_zero :: "nat \<Rightarrow> nat \<Rightarrow> int \<Rightarrow> string" where
  "fmt_zero b w k =
     (if k < 0
      then CHR ''-'' # replicate (w - 1 - length (str_base b (nat (- k)))) CHR ''0''
             @ str_base b (nat (- k))
      else replicate (w - length (str_base b (nat k))) CHR ''0'' @ str_base b (nat k))"






definition decimal_fmtr :: "int \<Rightarrow> string \<Rightarrow> string" where
  "decimal_fmtr key pfx =
     (let k = fmt_zero 10 12 key in if pfx \<noteq> [] then pfx @ ''-'' @ k else k)"




text \<open>
  Modelled from the spec: parsing a key's digits back as an integer. This is Python's
  \<open>int(s)\<close> on an optional minus sign followed by decimal digits; any other string is
  rejected with \<open>ValueError\<close>.
\<close>

definition digit_val :: "char \<Rightarrow> nat option" where
  "digit_val c =
     (if 48 \<le> (of_char c :: nat) \<and> (of_char c :: nat) \<le> 57
      then Some (of_char c - 48) else None)"

fun parse_digits :: "string \<Rightarrow> nat \<Rightarrow> nat option" where
  "parse_digits [] acc = Some acc"
| "parse_digits (c # cs) acc =
     (case digit_val c of None \<Rightarrow> None | Some d \<Rightarrow> parse_digits cs (10 * acc + d))"

definition int_of_str :: "string \<Rightarrow> error + int" where
  "int_of_str s =
     (case s of
        [] \<Rightarrow> Inl ValueError
      | c # cs \<Rightarrow>
          if c = CHR ''-''
          then (case (if cs = [] then None else parse_digits cs 0) of
                  None \<Rightarrow> Inl ValueError | Some n \<Rightarrow> Inr (- int n))
          else (case parse_digits s 0 of None \<Rightarrow> Inl ValueError | Some n \<Rightarrow> Inr (int n)))"

text \<open>The part of a decimal key after the \<open>prefix-\<close>.\<close>

definition digit_portion :: "string \<Rightarrow> string \<Rightarrow> string" where
  "digit_portion pfx s = (if pfx \<noteq> [] then drop (length pfx + 1) s else s)"

subsection \<open>String and the alphabet-derived fields of Document\<close>













text \<open>
  \<open>IncompressibleString.build_string\<close> is one of the synthesizers that draw from
  \<open>random\<close>: its result depends on the raw draw \<open>u\<close>.
\<close>

definition incompressible_build_string :: "nat \<Rightarrow> string \<Rightarrow> int \<Rightarrow> error + string" where
  "incompressible_build_string u alphabet len =
     (case randint u 0 (int (length alphabet) - len) of
        Inl e \<Rightarrow> Inl e
      | Inr offset \<Rightarrow> Inr (take (nat len) (drop (nat offset) alphabet)))"

subsection \<open>UniformKey, ZipfKey, PowerKey\<close>

definition UniformKey_next :: "string \<Rightarrow> string \<Rightarrow> nat \<Rightarrow> int \<Rightarrow> int \<Rightarrow> error + Key" where
  "UniformKey_next pfx f u curr_items curr_deletes =
     (case randrange u curr_deletes curr_items of
        Inl e \<Rightarrow> Inl e
      | Inr n \<Rightarrow> Inr (Key_init n pfx f False))"

text \<open>
  \<open>ZipfKey.next\<close>: \<open>z\<close> is the value drawn by \<open>np.random.zipf\<close>, an integer that numpy
  keeps at 1 or above.
\<close>

definition ZipfKey_next :: "string \<Rightarrow> string \<Rightarrow> int \<Rightarrow> int \<Rightarrow> int \<Rightarrow> Key" where
  "ZipfKey_next pfx f z curr_items curr_deletes =
     (let n = curr_items - z;
          n' = (if n \<le> curr_deletes then curr_items - 1 else n)
      in Key_init n' pfx f False)"

text \<open>
  \<open>PowerKey.next\<close>: \<open>r\<close> is the double drawn by \<open>np.random.power\<close>, which numpy keeps in
  the unit interval. The product \<open>r * (curr_items - curr_deletes - 1)\<close> converts the
  integer to a double and rounds the product to a double.
\<close>

definition PowerKey_next :: "string \<Rightarrow> string \<Rightarrow> nat \<times> nat \<Rightarrow> int \<Rightarrow> int \<Rightarrow> Key" where
  "PowerKey_next pfx f raw curr_items curr_deletes =
     (let r = double_of_raw raw
      in Key_init
           (curr_deletes + int_of_float (float_mul r (float_of_int (curr_items - curr_deletes - 1))))
           pfx f False)"

subsection \<open>WorkloadSettings\<close>

text \<open>
  \<open>spring.settings.WorkloadSettings\<close> is declared outside these sources; the record holds
  the attributes the modelled code reads. Counts of operations per batch are natural
  numbers, percentages and item numbers are integers.
\<close>

record WorkloadSettings =
  items :: int
  workers :: int
  working_set :: int
  working_set_access :: int
  working_set_moving_docs :: int
  key_fmtr :: string
  creates :: nat
  reads :: nat
  updates :: nat
  deletes :: nat
  reads_and_updates :: nat

subsection \<open>SequentialKey\<close>

text \<open>
  Python's \<open>range(start, stop, step)\<close>: it raises \<open>ValueError\<close> for a zero step, counts up
  while below \<open>stop\<close> for a positive step and down while above \<open>stop\<close> for a negative one.
\<close>

function range_up :: "int \<Rightarrow> int \<Rightarrow> int \<Rightarrow> int list" where
  "range_up i stop step =
     (if 0 < step \<and> i < stop then i # range_up (i + step) stop step else [])"
  by pat_completeness auto
termination
  by (relation "measure (\<lambda>(i, stop, step). nat (stop - i))") auto

declare range_up.simps [simp del]

function range_down :: "int \<Rightarrow> int \<Rightarrow> int \<Rightarrow> int list" where
  "range_down i stop step =
     (if step < 0 \<and> stop < i then i # range_down (i + step) stop step else [])"
  by pat_completeness auto
termination
  by (relation "measure (\<lambda>(i, stop, step). nat (i - stop))") auto

declare range_down.simps [simp del]

definition py_range :: "int \<Rightarrow> int \<Rightarrow> int \<Rightarrow> error + int list" where
  "py_range start stop step =
     (if step = 0 then Inl ValueError
      else if 0 < step then Inr (range_up start stop step)
      else Inr (range_down start stop step))"

text \<open>\<open>SequentialKey.__iter__\<close>, as the list of the keys it yields.\<close>

definition SequentialKey_iter :: "int \<Rightarrow> WorkloadSettings \<Rightarrow> string \<Rightarrow> error + Key list" where
  "SequentialKey_iter sid ws pfx =
     (case py_range sid (items ws) (workers ws) of
        Inl e \<Rightarrow> Inl e
      | Inr ns \<Rightarrow> Inr (map (\<lambda>seq_id. Key_init seq_id pfx (key_fmtr ws) False) ns))"

text \<open>
  The arithmetic progression \<open>sid, sid + W, sid + 2W, ...\<close> below \<open>n\<close>, written from the
  claim's words, to compare with what the iterator yields.
\<close>

definition progression_below :: "int \<Rightarrow> int \<Rightarrow> int \<Rightarrow> int list" where
  "progression_below sid n W =
     map (\<lambda>j. sid + int j * W) [0..<nat ((n - sid + W - 1) div W)]"

subsection \<open>WorkingSetKey\<close>

text \<open>
  \<open>num_hot_items = int(ws.items * ws.working_set / 100)\<close>: a true division followed by a
  truncation toward zero.
\<close>

definition percent_of :: "int \<Rightarrow> int \<Rightarrow> int" where
  "percent_of n p = py_int (real_of_int (n * p) / 100)"

record WorkingSetKey =
  wsk_num_hot_items :: int
  wsk_working_set_access :: int
  wsk_prefix :: string
  wsk_fmtr :: string

definition WorkingSetKey_init :: "WorkloadSettings \<Rightarrow> string \<Rightarrow> WorkingSetKey" where
  "WorkingSetKey_init ws pfx =
     \<lparr>wsk_num_hot_items = percent_of (items ws) (working_set ws),
      wsk_working_set_access = working_set_access ws,
      wsk_prefix = pfx,
      wsk_fmtr = key_fmtr ws\<rparr>"

text \<open>
  \<open>WorkingSetKey.next\<close>: \<open>d\<close> is the raw draw behind \<open>random.randint(0, 100)\<close>, \<open>u\<close> the
  one behind \<open>random.randrange(left_boundary, right_boundary)\<close>.
\<close>

definition WorkingSetKey_next :: "WorkingSetKey \<Rightarrow> nat \<Rightarrow> nat \<Rightarrow> int \<Rightarrow> int \<Rightarrow> error + Key" where
  "WorkingSetKey_next self d u curr_items curr_deletes =
     (let num_cold_items = curr_items - wsk_num_hot_items self in
      case randint d 0 100 of
        Inl e \<Rightarrow> Inl e
      | Inr x \<Rightarrow>
          let (h, left_boundary, right_boundary) =
                (if x \<le> wsk_working_set_access self
                 then (True, num_cold_items, curr_items)
                 else (False, curr_deletes, num_cold_items))
          in case randrange u left_boundary right_boundary of
               Inl e \<Rightarrow> Inl e
             | Inr n \<Rightarrow> Inr (Key_init n (wsk_prefix self) (wsk_fmtr self) h))"

subsection \<open>MovingWorkingSetKey\<close>

record MovingWorkingSetKey =
  mwk_working_set :: int
  mwk_working_set_access :: int
  mwk_working_set_moving_docs :: int
  mwk_prefix :: string
  mwk_fmtr :: string

definition MovingWorkingSetKey_init :: "WorkloadSettings \<Rightarrow> string \<Rightarrow> MovingWorkingSetKey" where
  "MovingWorkingSetKey_init ws pfx =
     \<lparr>mwk_working_set = working_set ws,
      mwk_working_set_access = working_set_access ws,
      mwk_working_set_moving_docs = working_set_moving_docs ws,
      mwk_prefix = pfx,
      mwk_fmtr = key_fmtr ws\<rparr>"



subsection \<open>KeyForCASUpdate\<close>

text \<open>
  \<open>np.random.random_integers(low, high)\<close> draws from the closed range; numpy implements
  it as \<open>randint(low, high + 1)\<close>, which raises \<open>ValueError\<close> when the range is empty.
\<close>

definition random_integers :: "nat \<Rightarrow> int \<Rightarrow> int \<Rightarrow> error + int" where
  "random_integers u low high =
     (if low < high + 1 then Inr (low + int u mod (high + 1 - low)) else Inl ValueError)"

definition cas_left_boundary :: "int \<Rightarrow> int \<Rightarrow> int \<Rightarrow> int" where
  "cas_left_boundary n1ql_workers sid curr_items = sid * (curr_items div n1ql_workers)"

definition cas_right_boundary :: "int \<Rightarrow> int \<Rightarrow> int \<Rightarrow> int" where
  "cas_right_boundary n1ql_workers sid curr_items =
     cas_left_boundary n1ql_workers sid curr_items + curr_items div n1ql_workers"

definition KeyForCASUpdate_next ::
  "int \<Rightarrow> string \<Rightarrow> string \<Rightarrow> nat \<Rightarrow> int \<Rightarrow> int \<Rightarrow> error + Key" where
  "KeyForCASUpdate_next n1ql_workers pfx f u sid curr_items =
     (if n1ql_workers = 0 then Inl ZeroDivisionError
      else case random_integers u (cas_left_boundary n1ql_workers sid curr_items)
                  (cas_right_boundary n1ql_workers sid curr_items - 1) of
             Inl e \<Rightarrow> Inl e
           | Inr n \<Rightarrow> Inr (Key_init n pfx f False))"

text \<open>The half-open range of key numbers that belongs to shard \<open>sid\<close>.\<close>

definition cas_shard :: "int \<Rightarrow> int \<Rightarrow> int \<Rightarrow> int set" where
  "cas_shard n1ql_workers sid curr_items =
     {cas_left_boundary n1ql_workers sid curr_items ..<
      cas_right_boundary n1ql_workers sid curr_items}"


section \<open>The key-value worker of spring/wgen.py\<close>

subsection \<open>NewOrderedKey and KeyForRemoval\<close>

definition NewOrderedKey_next :: "string \<Rightarrow> string \<Rightarrow> int \<Rightarrow> Key" where
  "NewOrderedKey_next pfx f curr_items = Key_init curr_items pfx f False"

definition KeyForRemoval_next :: "string \<Rightarrow> string \<Rightarrow> int \<Rightarrow> Key" where
  "KeyForRemoval_next pfx f curr_deletes = Key_init curr_deletes pfx f False"

subsection \<open>The operation mix of one batch\<close>

text \<open>
  \<open>KVWorker.random_ops\<close> builds the list of tokens in a fixed order and shuffles it.
  \<open>ordered_ops\<close> is the list before the shuffle; \<open>random_ops ws ops\<close> holds when \<open>ops\<close>
  is a list the shuffle can produce, a rearrangement of \<open>ordered_ops ws\<close>.
\<close>

definition ordered_ops :: "WorkloadSettings \<Rightarrow> string" where
  "ordered_ops ws =
     replicate (creates ws) CHR ''c'' @ replicate (reads ws) CHR ''r''
     @ replicate (updates ws) CHR ''u'' @ replicate (deletes ws) CHR ''d''
     @ replicate (reads_and_updates ws div 2) CHR ''m''"

definition random_ops :: "WorkloadSettings \<Rightarrow> string \<Rightarrow> bool" where
  "random_ops ws ops = (mset ops = mset (ordered_ops ws))"

text \<open>
  A command is the triple \<open>(name, func, args)\<close> of the source. The client methods are a
  datatype. The argument tuple is represented by the key whose string it starts with and,
  for \<open>create\<close> and \<open>update\<close>, the document \<open>docs.next(key)\<close>; the document synthesizer is
  the parameter \<open>docs\<close>.
\<close>

datatype func = cb_create | cb_read | cb_update | cb_delete

type_synonym 'd cmd = "string \<times> func \<times> Key \<times> 'd option"

text \<open>
  The generator of existing keys is selected by \<open>init_keys\<close>; here it is the parameter
  \<open>existing_next\<close>. It takes and returns the state \<open>'g\<close> that its draws and the shared
  hot-window values live in, may raise, and is told by a flag whether the call passes
  \<open>current_hot_load_start\<close> and \<open>timer_elapse\<close> (as \<open>update_args\<close> does) or not.
\<close>

type_synonym 'g existing_keys = "'g \<Rightarrow> int \<Rightarrow> int \<Rightarrow> bool \<Rightarrow> 'g \<times> (error + Key)"

definition create_args :: "(Key \<Rightarrow> 'd) \<Rightarrow> WorkloadSettings \<Rightarrow> string \<Rightarrow> int \<Rightarrow> 'd cmd list" where
  "create_args docs ws pfx curr_items =
     (let key = NewOrderedKey_next pfx (key_fmtr ws) curr_items
      in [(''set'', cb_create, key, Some (docs key))])"

definition read_args :: "'g existing_keys \<Rightarrow> 'g \<Rightarrow> int \<Rightarrow> int \<Rightarrow> 'g \<times> (error + 'd cmd list)" where
  "read_args existing_next g curr_items deleted_items =
     (case existing_next g curr_items deleted_items False of
        (g', Inl e) \<Rightarrow> (g', Inl e)
      | (g', Inr key) \<Rightarrow> (g', Inr [(''get'', cb_read, key, None)]))"

definition update_args ::
  "'g existing_keys \<Rightarrow> (Key \<Rightarrow> 'd) \<Rightarrow> 'g \<Rightarrow> int \<Rightarrow> int \<Rightarrow> 'g \<times> (error + 'd cmd list)" where
  "update_args existing_next docs g curr_items deleted_items =
     (case existing_next g curr_items deleted_items True of
        (g', Inl e) \<Rightarrow> (g', Inl e)
      | (g', Inr key) \<Rightarrow> (g', Inr [(''set'', cb_update, key, Some (docs key))]))"

definition delete_args :: "WorkloadSettings \<Rightarrow> string \<Rightarrow> int \<Rightarrow> 'd cmd list" where
  "delete_args ws pfx deleted_items =
     (let key = KeyForRemoval_next pfx (key_fmtr ws) deleted_items
      in [(''delete'', cb_delete, key, None)])"

definition modify_args ::
  "'g existing_keys \<Rightarrow> (Key \<Rightarrow> 'd) \<Rightarrow> 'g \<Rightarrow> int \<Rightarrow> int \<Rightarrow> 'g \<times> (error + 'd cmd list)" where
  "modify_args existing_next docs g curr_items deleted_items =
     (case existing_next g curr_items deleted_items False of
        (g', Inl e) \<Rightarrow> (g', Inl e)
      | (g', Inr key) \<Rightarrow>
          (g', Inr [(''get'', cb_read, key, None), (''set'', cb_update, key, Some (docs key))]))"

text \<open>
  The \<open>for op in self.random_ops\<close> loop of \<open>gen_cmd_sequence\<close>, with the local
  \<open>curr_items\<close>, \<open>deleted_items\<close> and \<open>cmds\<close> as accumulators. An exception of the key
  generator ends the loop.
\<close>

fun cmd_loop ::
  "'g existing_keys \<Rightarrow> (Key \<Rightarrow> 'd) \<Rightarrow> WorkloadSettings \<Rightarrow> string \<Rightarrow> string \<Rightarrow> int \<Rightarrow> int
     \<Rightarrow> 'g \<Rightarrow> 'd cmd list \<Rightarrow> 'g \<times> (error + 'd cmd list)" where
  "cmd_loop existing_next docs ws pfx [] ci di g cmds = (g, Inr cmds)"
| "cmd_loop existing_next docs ws pfx (op # ops) ci di g cmds =
     (if op = CHR ''c'' then
        cmd_loop existing_next docs ws pfx ops (ci + 1) di g (cmds @ create_args docs ws pfx ci)
      else if op = CHR ''r'' then
        (case read_args existing_next g ci di of
           (g', Inl e) \<Rightarrow> (g', Inl e)
         | (g', Inr s) \<Rightarrow> cmd_loop existing_next docs ws pfx ops ci di g' (cmds @ s))
      else if op = CHR ''u'' then
        (case update_args existing_next docs g ci di of
           (g', Inl e) \<Rightarrow> (g', Inl e)
         | (g', Inr s) \<Rightarrow> cmd_loop existing_next docs ws pfx ops ci di g' (cmds @ s))
      else if op = CHR ''d'' then
        cmd_loop existing_next docs ws pfx ops ci (di + 1) g (cmds @ delete_args ws pfx di)
      else if op = CHR ''m'' then
        (case modify_args existing_next docs g ci di of
           (g', Inl e) \<Rightarrow> (g', Inl e)
         | (g', Inr s) \<Rightarrow> cmd_loop existing_next docs ws pfx ops ci di g' (cmds @ s))
      else cmd_loop existing_next docs ws pfx ops ci di g cmds)"

text \<open>
  The shared counters \<open>self.curr_items\<close> and \<open>self.deleted_items\<close>, and the number of times
  \<open>self.lock\<close> has been taken.
\<close>

record counters =
  shared_curr_items :: int
  shared_deleted_items :: int
  lock_count :: nat

definition reserve_new_keys :: "WorkloadSettings \<Rightarrow> counters \<Rightarrow> int \<times> counters" where
  "reserve_new_keys ws sh =
     (if creates ws \<noteq> 0
      then (shared_curr_items sh,
            sh\<lparr>lock_count := lock_count sh + 1,
               shared_curr_items := shared_curr_items sh + int (creates ws)\<rparr>)
      else (items ws, sh))"

definition reserve_deleted_keys :: "WorkloadSettings \<Rightarrow> counters \<Rightarrow> int \<times> counters" where
  "reserve_deleted_keys ws sh =
     (if deletes ws \<noteq> 0
      then (shared_deleted_items sh + int (deletes ws) * workers ws,
            sh\<lparr>lock_count := lock_count sh + 1,
               shared_deleted_items := shared_deleted_items sh + int (deletes ws)\<rparr>)
      else (0, sh))"

text \<open>
  \<open>KVWorker.gen_cmd_sequence\<close>; \<open>ops\<close> is the value of \<open>self.random_ops\<close>. The counters
  are returned as the call leaves them, also when the loop raises.
\<close>

definition gen_cmd_sequence ::
  "'g existing_keys \<Rightarrow> (Key \<Rightarrow> 'd) \<Rightarrow> WorkloadSettings \<Rightarrow> string \<Rightarrow> string \<Rightarrow> counters \<Rightarrow> 'g
     \<Rightarrow> counters \<times> 'g \<times> (error + 'd cmd list)" where
  "gen_cmd_sequence existing_next docs ws pfx ops sh g =
     (let (curr_items, sh1) = reserve_new_keys ws sh;
          (deleted_items, sh2) = reserve_deleted_keys ws sh1
      in (sh2, cmd_loop existing_next docs ws pfx ops curr_items deleted_items g []))"

text \<open>
  What one token contributes to the command sequence, for stating the batch property:
  the commands of a token \<open>op\<close> resolved with the local counters \<open>ci\<close> and \<open>di\<close>.
\<close>

fun token_cmds :: "(Key \<Rightarrow> 'd) \<Rightarrow> WorkloadSettings \<Rightarrow> string \<Rightarrow> char \<Rightarrow> int \<Rightarrow> int \<Rightarrow> 'd cmd list \<Rightarrow> bool" where
  "token_cmds docs ws pfx op ci di [] =
     (op \<noteq> CHR ''c'' \<and> op \<noteq> CHR ''r'' \<and> op \<noteq> CHR ''u'' \<and> op \<noteq> CHR ''d'' \<and> op \<noteq> CHR ''m'')"
| "token_cmds docs ws pfx op ci di [(n, f, k, d)] =
     (op = CHR ''c'' \<and> n = ''set'' \<and> f = cb_create \<and> d = Some (docs k)
        \<and> k = Key_init ci pfx (key_fmtr ws) False
      \<or> op = CHR ''r'' \<and> n = ''get'' \<and> f = cb_read \<and> d = None
      \<or> op = CHR ''u'' \<and> n = ''set'' \<and> f = cb_update \<and> d = Some (docs k)
      \<or> op = CHR ''d'' \<and> n = ''delete'' \<and> f = cb_delete \<and> d = None
        \<and> k = Key_init di pfx (key_fmtr ws) False)"
| "token_cmds docs ws pfx op ci di [(n, f, k, d), (n', f', k', d')] =
     (op = CHR ''m'' \<and> n = ''get'' \<and> f = cb_read \<and> d = None
        \<and> n' = ''set'' \<and> f' = cb_update \<and> d' = Some (docs k') \<and> k' = k)"
| "token_cmds docs ws pfx op ci di (c # c' # c'' # cs) = False"

fun batch_cmds ::
  "(Key \<Rightarrow> 'd) \<Rightarrow> WorkloadSettings \<Rightarrow> string \<Rightarrow> string \<Rightarrow> int \<Rightarrow> int \<Rightarrow> 'd cmd list list \<Rightarrow> bool" where
  "batch_cmds docs ws pfx [] ci di gs = (gs = [])"
| "batch_cmds docs ws pfx (op # ops) ci di [] = False"
| "batch_cmds docs ws pfx (op # ops) ci di (grp # gs) =
     (token_cmds docs ws pfx op ci di grp
      \<and> batch_cmds docs ws pfx ops (if op = CHR ''c'' then ci + 1 else ci)
            (if op = CHR ''d'' then di + 1 else di) gs)"

text \<open>The key numbers of the commands of a sequence that call the client method \<open>f\<close>.\<close>

definition key_numbers :: "func \<Rightarrow> 'd cmd list \<Rightarrow> int list" where
  "key_numbers f cmds = map (\<lambda>(n, f', k, d). number k) (filter (\<lambda>(n, f', k, d). f' = f) cmds)"

subsection \<open>The synchronous run loop\<close>

text \<open>
  What a call can raise: \<open>KeyboardInterrupt\<close>, or any other exception. A command is a
  name paired with what the client is called with; the client is the parameter \<open>call\<close>,
  which returns a latency, returns \<open>None\<close>, or raises.
\<close>

datatype exc = KeyboardInterrupt | OtherException error

definition BATCH_SIZE :: nat where "BATCH_SIZE = 100"

text \<open>
  The loop of \<open>KVWorker.do_batch\<close> over the commands, with the reservoir as the list of
  the samples recorded so far. Nothing is caught: the first call that raises ends it.
\<close>

fun exec_cmds ::
  "(string \<times> 'a \<Rightarrow> exc + 'l option) \<Rightarrow> (string \<times> 'a) list \<Rightarrow> (string \<times> 'l) list
     \<Rightarrow> (string \<times> 'l) list \<times> exc option" where
  "exec_cmds call [] rsv = (rsv, None)"
| "exec_cmds call (c # cs) rsv =
     (case call c of
        Inl e \<Rightarrow> (rsv, Some e)
      | Inr None \<Rightarrow> exec_cmds call cs rsv
      | Inr (Some latency) \<Rightarrow> exec_cmds call cs (rsv @ [(fst c, latency)]))"

text \<open>
  \<open>do_batch\<close>: \<open>gen\<close> is what \<open>self.gen_cmd_sequence()\<close> gave, a command sequence or the
  exception it raised. The sleep of \<open>with_sleep\<close> has no effect on the result.
\<close>

definition do_batch ::
  "(string \<times> 'a \<Rightarrow> exc + 'l option) \<Rightarrow> error + (string \<times> 'a) list \<Rightarrow> (string \<times> 'l) list
     \<Rightarrow> (string \<times> 'l) list \<times> exc option" where
  "do_batch call gen rsv =
     (case gen of Inl e \<Rightarrow> (rsv, Some (OtherException e)) | Inr cmds \<Rightarrow> exec_cmds call cmds rsv)"

text \<open>
  \<open>run_condition\<close>: \<open>ws.ops\<close> may be \<open>float('inf')\<close>, so it is an extended natural number;
  \<open>stop\<close> is the value of \<open>time_to_stop()\<close>.
\<close>

definition run_condition :: "enat \<Rightarrow> nat \<Rightarrow> bool \<Rightarrow> bool" where
  "run_condition ops curr_ops stop = (enat curr_ops < ops \<and> \<not> stop)"

text \<open>
  The \<open>while\<close> loop of \<open>KVWorker.run\<close>. In the \<open>i\<close>-th iteration \<open>time_to_stop i\<close> is the
  state of the shutdown event and \<open>gen i\<close> the outcome of \<open>gen_cmd_sequence\<close>. With
  unbounded \<open>ws.ops\<close> and no shutdown the loop does not end, so it runs on fuel: \<open>None\<close>
  means the fuel ran out. Otherwise the result is the operation counter, the reservoir
  and the exception that left the loop, if one did. The counter is the one worker's view:
  increments by other workers are not part of the model.
\<close>

fun run_loop ::
  "nat \<Rightarrow> enat \<Rightarrow> (nat \<Rightarrow> bool) \<Rightarrow> (nat \<Rightarrow> error + (string \<times> 'a) list)
     \<Rightarrow> (string \<times> 'a \<Rightarrow> exc + 'l option) \<Rightarrow> nat \<Rightarrow> nat \<Rightarrow> (string \<times> 'l) list
     \<Rightarrow> (nat \<times> (string \<times> 'l) list \<times> exc option) option" where
  "run_loop 0 ops time_to_stop gen call i curr_ops rsv = None"
| "run_loop (Suc fuel) ops time_to_stop gen call i curr_ops rsv =
     (if run_condition ops curr_ops (time_to_stop i) then
        (case do_batch call (gen i) rsv of
           (rsv', Some e) \<Rightarrow> Some (curr_ops + BATCH_SIZE, rsv', Some e)
         | (rsv', None) \<Rightarrow>
             run_loop fuel ops time_to_stop gen call (Suc i) (curr_ops + BATCH_SIZE) rsv')
      else Some (curr_ops, rsv, None))"

text \<open>
  \<open>KVWorker.run\<close> from the first log line on: the log lines written, the samples handed
  to \<open>dump_stats\<close> if it is reached, and the exception that leaves \<open>run\<close>, if one does.
\<close>

datatype log_line = Started | Interrupted | Finished

record 'l run_result =
  final_ops :: nat
  log_lines :: "log_line list"
  dumped :: "(string \<times> 'l) list option"
  raised :: "exc option"

definition run ::
  "nat \<Rightarrow> enat \<Rightarrow> (nat \<Rightarrow> bool) \<Rightarrow> (nat \<Rightarrow> error + (string \<times> 'a) list)
     \<Rightarrow> (string \<times> 'a \<Rightarrow> exc + 'l option) \<Rightarrow> nat \<Rightarrow> 'l run_result option" where
  "run fuel ops time_to_stop gen call curr_ops =
     (case run_loop fuel ops time_to_stop gen call 0 curr_ops [] of
        None \<Rightarrow> None
      | Some (c, rsv, None) \<Rightarrow>
          Some \<lparr>final_ops = c, log_lines = [Started, Finished], dumped = Some rsv,
                raised = None\<rparr>
      | Some (c, rsv, Some KeyboardInterrupt) \<Rightarrow>
          Some \<lparr>final_ops = c, log_lines = [Started, Interrupted], dumped = Some rsv,
                raised = None\<rparr>
      | Some (c, rsv, Some (OtherException e)) \<Rightarrow>
          Some \<lparr>final_ops = c, log_lines = [Started], dumped = None,
                raised = Some (OtherException e)\<rparr>)"

text \<open>
  The course of a run, for stating its exit paths: the exception the \<open>i\<close>-th batch ends
  with, the reservoir before the \<open>i\<close>-th batch, and whether the \<open>i\<close>-th iteration is
  entered and completes, so that the loop goes on.
\<close>

definition batch_exc ::
  "(string \<times> 'a \<Rightarrow> exc + 'l option) \<Rightarrow> (nat \<Rightarrow> error + (string \<times> 'a) list) \<Rightarrow> nat
     \<Rightarrow> exc option" where
  "batch_exc call gen i = snd (do_batch call (gen i) [])"

primrec rsv_before ::
  "(string \<times> 'a \<Rightarrow> exc + 'l option) \<Rightarrow> (nat \<Rightarrow> error + (string \<times> 'a) list) \<Rightarrow> nat
     \<Rightarrow> (string \<times> 'l) list" where
  "rsv_before call gen 0 = []"
| "rsv_before call gen (Suc i) = fst (do_batch call (gen i) (rsv_before call gen i))"

definition loop_continues ::
  "enat \<Rightarrow> (nat \<Rightarrow> bool) \<Rightarrow> (nat \<Rightarrow> error + (string \<times> 'a) list)
     \<Rightarrow> (string \<times> 'a \<Rightarrow> exc + 'l option) \<Rightarrow> nat \<Rightarrow> nat \<Rightarrow> bool" where
  "loop_continues ops time_to_stop gen call curr_ops i =
     (run_condition ops (curr_ops + BATCH_SIZE * i) (time_to_stop i)
      \<and> batch_exc call gen i = None)"

section \<open>Properties\<close>

lemma randrange_bounds:
  assumes "start < stop"
  shows "\<exists>n. randrange u start stop = Inr n \<and> start \<le> n \<and> n < stop"
proof -
  have "0 \<le> int u mod (stop - start)" "int u mod (stop - start) < stop - start"
    using assms by simp_all
  then have "start \<le> start + int u mod (stop - start)"
    "start + int u mod (stop - start) < stop"
    by linarith+
  then show ?thesis using assms by (simp add: randrange_def)
qed

lemma round53_small: "\<bar>a\<bar> < 2 ^ 53 \<Longrightarrow> round53 a = a"
proof -
  assume "\<bar>a\<bar> < 2 ^ 53"
  then have "bitlen \<bar>a\<bar> \<le> 53" by (simp add: bitlen_le_iff_power)
  then show ?thesis by (simp add: round53_def)
qed

lemma round53_neg: "round53 (- a) = - round53 a"
  by (simp add: round53_def Let_def)


lemma round53_pos:
  assumes "0 < a" and "e = nat (bitlen a - 53)" and "0 < e"
  shows "round53 a =
     (if 2 ^ (e - 1) < a mod 2 ^ e \<or> (a mod 2 ^ e = 2 ^ (e - 1) \<and> odd (a div 2 ^ e))
      then a div 2 ^ e + 1 else a div 2 ^ e) * 2 ^ e"
proof -
  have "\<bar>a\<bar> = a" "sgn a = 1" using assms(1) by simp_all
  then show ?thesis using assms(2,3) by (simp add: round53_def Let_def)
qed


lemma double_of_raw_parts:
  "0 \<le> fst (double_of_raw raw)" "fst (double_of_raw raw) < 2 ^ 53"
  "(dval (double_of_raw raw) \<le> 1) = (fst (double_of_raw raw) \<le> 2 ^ snd (double_of_raw raw))"
  "(dval (double_of_raw raw) = 1) = (fst (double_of_raw raw) = 2 ^ snd (double_of_raw raw))"
proof -
  show "0 \<le> fst (double_of_raw raw)" by (simp add: double_of_raw_def)
  have "fst raw mod 2 ^ 53 < 2 ^ 53" by simp
  then have "int (fst raw mod 2 ^ 53) < int (2 ^ 53)" by (simp only: of_nat_less_iff)
  then show "fst (double_of_raw raw) < 2 ^ 53" by (simp add: double_of_raw_def)
  have "(real_of_int m / 2 ^ k \<le> 1) = (m \<le> 2 ^ k)" for m :: int and k :: nat
  proof -
    have "(real_of_int m / 2 ^ k \<le> 1) = (real_of_int m \<le> 2 ^ k)" by (simp add: divide_le_eq)
    also have "\<dots> = (real_of_int m \<le> real_of_int (2 ^ k))" by simp
    also have "\<dots> = (m \<le> 2 ^ k)" by (simp only: of_int_le_iff)
    finally show ?thesis .
  qed
  then show "(dval (double_of_raw raw) \<le> 1)
      = (fst (double_of_raw raw) \<le> 2 ^ snd (double_of_raw raw))"
    by (simp add: dval_def)
  have "(real_of_int m / 2 ^ k = 1) = (m = 2 ^ k)" for m :: int and k :: nat
  proof -
    have "(real_of_int m / 2 ^ k = 1) = (real_of_int m = 2 ^ k)" by (simp add: divide_eq_eq)
    also have "\<dots> = (real_of_int m = real_of_int (2 ^ k))" by simp
    also have "\<dots> = (m = 2 ^ k)" by (simp only: of_int_eq_iff)
    finally show ?thesis .
  qed
  then show "(dval (double_of_raw raw) = 1)
      = (fst (double_of_raw raw) = 2 ^ snd (double_of_raw raw))"
    by (simp add: dval_def)
qed




text \<open>
  The claim C1 as stated fails for the power-law generator once the live range is too
  large for doubles: with \<open>curr_items = 2 ^ 53 + 4\<close>, no deletes and the draw 1.0, the
  integer \<open>2 ^ 53 + 3\<close> is rounded up to \<open>2 ^ 53 + 4\<close> on conversion and the key number
  returned is \<open>curr_items\<close> itself.
\<close>

theorem power_key_beyond_double_precision:
  "number (PowerKey_next ''p'' ''decimal'' (1, 0) 9007199254740996 0) = 9007199254740996"
proof -
  have b1: "bitlen 9007199254740995 = 54" using bitlen_twopow_add_eq [of 3 53] by simp
  have b2: "bitlen 9007199254740996 = 54" using bitlen_twopow_add_eq [of 4 53] by simp
  have e1: "(1::nat) = nat (bitlen 9007199254740995 - 53)" using b1 by simp
  have e2: "(1::nat) = nat (bitlen 9007199254740996 - 53)" using b2 by simp
  have r1: "round53 9007199254740995 = 9007199254740996"
    using round53_pos [OF _ e1] by simp
  have r2: "round53 9007199254740996 = 9007199254740996"
    using round53_pos [OF _ e2] by simp
  show ?thesis
    by (simp add: PowerKey_next_def Let_def double_of_raw_def float_of_int_def float_mul_def
        int_of_float_def Key_init_def r1 r2)
qed

lemma power_empty_range:
  assumes "dval (double_of_raw raw) \<le> 1"
  shows "int_of_float (float_mul (double_of_raw raw) (float_of_int (- 1)))
       = (if dval (double_of_raw raw) = 1 then - 1 else 0)"
proof -
  define m where "m = fst (double_of_raw raw)"
  define k where "k = snd (double_of_raw raw)"
  have m: "0 \<le> m" "m < 2 ^ 53" "m \<le> 2 ^ k"
    using double_of_raw_parts(1,2,3) [of raw] assms by (simp_all add: m_def k_def)
  have one: "(dval (double_of_raw raw) = 1) = (m = 2 ^ k)"
    using double_of_raw_parts(4) [of raw] by (simp add: m_def k_def)
  have "round53 (- 1) = - 1" by (rule round53_small) simp
  moreover have "round53 (- m) = - m" using m(1,2) by (intro round53_small) simp
  ultimately have prod:
    "float_mul (double_of_raw raw) (float_of_int (- 1)) = (- m, k)"
    by (simp add: float_mul_def float_of_int_def m_def k_def)
  show ?thesis
  proof (cases "m = 2 ^ k")
    case True
    then show ?thesis by (simp add: prod one int_of_float_def)
  next
    case False
    then have "m < 2 ^ k" using m(3) by simp
    then have "m div 2 ^ k = 0" using m(1) by (simp add: div_pos_pos_trivial)
    then show ?thesis using False m(1) by (simp add: prod one int_of_float_def)
  qed
qed

text \<open>
  C3 (as amended). With an empty live range, \<open>curr_items = curr_deletes = c\<close>, the Zipfian
  and power-law generators do not raise: \<open>ZipfKey.next\<close> returns the key \<open>c - 1\<close> for every
  draw, and \<open>PowerKey.next\<close> returns \<open>c\<close>, or \<open>c - 1\<close> when the draw is exactly 1.
  \<open>UniformKey.next\<close> raises \<open>ValueError\<close> for every draw. \<open>WorkingSetKey.next\<close> (with a
  hot-set size that is not negative) raises \<open>ValueError\<close> on every miss and on a hit with an
  empty hot set; on a hit with a non-empty hot set it returns a key flagged as a hit whose
  number lies in \<open>[c - num_hot_items, c)\<close>.
\<close>

theorem empty_live_range_behaviour:
  assumes "1 \<le> z" and "dval (double_of_raw raw) \<le> 1" and "0 \<le> wsk_num_hot_items self"
  shows "number (ZipfKey_next pfx f z c c) = c - 1
       \<and> number (PowerKey_next pfx f raw c c)
           = (if dval (double_of_raw raw) = 1 then c - 1 else c)
       \<and> UniformKey_next pfx f u c c = Inl ValueError
       \<and> (if int d mod 101 \<le> wsk_working_set_access self \<and> 0 < wsk_num_hot_items self
           then \<exists>k. WorkingSetKey_next self d u c c = Inr k \<and> hit k
                  \<and> c - wsk_num_hot_items self \<le> number k \<and> number k < c
           else WorkingSetKey_next self d u c c = Inl ValueError)"
proof -
  have zipf: "number (ZipfKey_next pfx f z c c) = c - 1"
    using assms(1) by (simp add: ZipfKey_next_def Key_init_def Let_def)
  have pow: "number (PowerKey_next pfx f raw c c)
      = (if dval (double_of_raw raw) = 1 then c - 1 else c)"
    using power_empty_range [OF assms(2)] by (simp add: PowerKey_next_def Key_init_def Let_def)
  have uni: "UniformKey_next pfx f u c c = Inl ValueError"
    by (simp add: UniformKey_next_def randrange_def)
  have wsk: "if int d mod 101 \<le> wsk_working_set_access self \<and> 0 < wsk_num_hot_items self
           then \<exists>k. WorkingSetKey_next self d u c c = Inr k \<and> hit k
                  \<and> c - wsk_num_hot_items self \<le> number k \<and> number k < c
           else WorkingSetKey_next self d u c c = Inl ValueError"
  proof (cases "int d mod 101 \<le> wsk_working_set_access self")
    case miss: False
    then show ?thesis using assms(3)
      by (simp add: WorkingSetKey_next_def randint_def randrange_def Let_def)
  next
    case hit: True
    show ?thesis
    proof (cases "0 < wsk_num_hot_items self")
      case False
      then show ?thesis using hit
        by (simp add: WorkingSetKey_next_def randint_def randrange_def Let_def)
    next
      case True
      then obtain n where n: "randrange u (c - wsk_num_hot_items self) c = Inr n"
        "c - wsk_num_hot_items self \<le> n" "n < c"
        using randrange_bounds [of "c - wsk_num_hot_items self" c u] by auto
      have r: "randint d 0 100 = Inr (int d mod 101)" by (simp add: randint_def randrange_def)
      show ?thesis using hit True n
        by (simp add: WorkingSetKey_next_def r Let_def Key_init_def)
    qed
  qed
  from zipf pow uni wsk show ?thesis by blast
qed

theorem empty_live_range_behaviour_witness:
  "number (ZipfKey_next ''p'' ''decimal'' 3 5 5) = 4
   \<and> number (PowerKey_next ''p'' ''decimal'' (1, 1) 5 5) = 5
   \<and> number (PowerKey_next ''p'' ''decimal'' (1, 0) 5 5) = 4
   \<and> UniformKey_next ''p'' ''decimal'' 7 5 5 = Inl ValueError
   \<and> WorkingSetKey_next \<lparr>wsk_num_hot_items = 2, wsk_working_set_access = 50,
        wsk_prefix = ''p'', wsk_fmtr = ''decimal''\<rparr> 60 7 5 5 = Inl ValueError"
proof -
  have h: "(1::int) \<le> 3" "dval (double_of_raw (1, 1)) \<le> 1" "dval (double_of_raw (1, 0)) \<le> 1"
    "0 \<le> wsk_num_hot_items \<lparr>wsk_num_hot_items = 2, wsk_working_set_access = 50,
        wsk_prefix = ''p'', wsk_fmtr = ''decimal''\<rparr>"
    by (simp_all add: dval_def double_of_raw_def)
  have v: "dval (double_of_raw (1, 1)) \<noteq> 1" "dval (double_of_raw (1, 0)) = 1"
    by (simp_all add: dval_def double_of_raw_def)
  note a = empty_live_range_behaviour [OF h(1) h(2) h(4), of "''p''" "''decimal''" 5 7 60]
  note b = empty_live_range_behaviour [OF h(1) h(3) h(4), of "''p''" "''decimal''" 5 7 60]
  from a b v show ?thesis by simp
qed

text \<open>
  The claim C3 as stated fails: with \<open>curr_items = curr_deletes = 5\<close> the uniform generator
  raises \<open>ValueError\<close>.
\<close>

theorem uniform_empty_range_raises:
  "UniformKey_next ''p'' ''decimal'' 0 5 5 = Inl ValueError"
  by (simp add: UniformKey_next_def randrange_def)

text \<open>
  With \<open>working_set_access = 100\<close> every draw of \<open>random.randint(0, 100)\<close> passes the
  test, so every returned key is a hit of the hot suffix.
\<close>

lemma working_set_access_full:
  assumes "wsk_working_set_access self = 100"
    and "WorkingSetKey_next self d u curr_items curr_deletes = Inr k"
  shows "hit k \<and> curr_items - wsk_num_hot_items self \<le> number k \<and> number k < curr_items"
proof -
  have r: "randint d 0 100 = Inr (int d mod 101)" by (simp add: randint_def randrange_def)
  have "int d mod 101 < 101" by simp
  then have le: "int d mod 101 \<le> wsk_working_set_access self" using assms(1) by simp
  from assms(2) obtain n where
    n: "randrange u (curr_items - wsk_num_hot_items self) curr_items = Inr n"
    and k: "k = Key_init n (wsk_prefix self) (wsk_fmtr self) True"
    by (auto simp: WorkingSetKey_next_def r le Let_def split: sum.splits)
  have "curr_items - wsk_num_hot_items self < curr_items"
    using n by (auto simp: randrange_def split: if_splits)
  from randrange_bounds [OF this, of u] n k show ?thesis by (auto simp: Key_init_def)
qed

text \<open>
  C2. With \<open>working_set_access = 0\<close> every draw should be a miss. When
  \<open>random.randint(0, 100)\<close> draws 0, the test \<open>0 <= working_set_access\<close> holds and the
  generator samples the hot suffix: for 1000 items and a working set of 10 percent it
  returns a key of \<open>[900, 1000)\<close> with \<open>hit = True\<close>.
\<close>

theorem working_set_access_zero_hit:
  "WorkingSetKey_next
     (WorkingSetKey_init \<lparr>items = 1000, workers = 1, working_set = 10, working_set_access = 0,
        working_set_moving_docs = 0, key_fmtr = ''decimal'', creates = 0, reads = 100,
        updates = 0, deletes = 0, reads_and_updates = 0\<rparr> ''p'') 0 5 1000 0
   = Inr \<lparr>number = 905, prefix = ''p'', hit = True, fmtr = ''decimal''\<rparr>"
  by (simp add: WorkingSetKey_next_def WorkingSetKey_init_def randint_def randrange_def
      percent_of_def py_int_def Key_init_def)

lemma cas_shard_eq: "cas_shard W sid I = {sid * (I div W) ..< (sid + 1) * (I div W)}"
  by (simp add: cas_shard_def cas_left_boundary_def cas_right_boundary_def algebra_simps)

lemma cas_shard_disjoint:
  assumes "sid < sid'"
  shows "cas_shard W sid I \<inter> cas_shard W sid' I = {}"
proof (cases "0 < I div W")
  case False
  then have "(sid + 1) * (I div W) \<le> sid * (I div W)" for sid
    by (simp add: algebra_simps)
  then have "cas_shard W sid I = {}" by (simp add: cas_shard_eq)
  then show ?thesis by simp
next
  case True
  have "sid + 1 \<le> sid'" using assms by simp
  then have "(sid + 1) * (I div W) \<le> sid' * (I div W)"
    using True by (intro mult_right_mono) simp_all
  then show ?thesis by (auto simp: cas_shard_eq)
qed

lemma cas_shard_union:
  assumes "0 < W"
  shows "(\<Union>sid\<in>{0..<W}. cas_shard W sid I) = {0..<I - I mod W}"
proof -
  define p where "p = I div W"
  have tot: "I - I mod W = W * p" by (simp add: p_def minus_mod_eq_mult_div)
  show ?thesis
  proof (cases "0 < p")
    case False
    then have "(sid + 1) * p \<le> sid * p" for sid by (simp add: algebra_simps)
    then have e: "cas_shard W sid I = {}" for sid by (simp add: cas_shard_eq p_def)
    have "W * p \<le> 0" using False assms by (simp add: mult_le_0_iff)
    then show ?thesis using e tot by simp
  next
    case True
    show ?thesis
    proof (intro set_eqI iffI)
      fix x assume "x \<in> (\<Union>sid\<in>{0..<W}. cas_shard W sid I)"
      then obtain sid where sid: "0 \<le> sid" "sid < W" "sid * p \<le> x" "x < (sid + 1) * p"
        by (auto simp: cas_shard_eq p_def)
      have "0 \<le> sid * p" using sid True by simp
      moreover have "(sid + 1) * p \<le> W * p"
        using sid True by (intro mult_right_mono) simp_all
      ultimately show "x \<in> {0..<I - I mod W}" using sid tot by simp
    next
      fix x assume "x \<in> {0..<I - I mod W}"
      then have x: "0 \<le> x" "x < W * p" using tot by simp_all
      define sid where "sid = x div p"
      have eq: "x = sid * p + x mod p" by (simp add: sid_def)
      have m: "0 \<le> x mod p" "x mod p < p" using True by simp_all
      have 3: "sid * p \<le> x" using eq m by linarith
      have 4: "x < (sid + 1) * p" using eq m by (simp add: algebra_simps)
      have 1: "0 \<le> sid" using x True by (simp add: sid_def pos_imp_zdiv_nonneg_iff)
      have 2: "sid < W"
      proof (rule ccontr)
        assume "\<not> sid < W"
        then have "W * p \<le> sid * p" using True by (intro mult_right_mono) simp_all
        then show False using 3 x by linarith
      qed
      show "x \<in> (\<Union>sid\<in>{0..<W}. cas_shard W sid I)"
        using 1 2 3 4 by (auto simp: cas_shard_eq p_def)
    qed
  qed
qed

lemma random_integers_bounds:
  assumes "random_integers u low high = Inr n"
  shows "low \<le> n \<and> n \<le> high"
proof -
  have lt: "low < high + 1" and n: "n = low + int u mod (high + 1 - low)"
    using assms by (auto simp: random_integers_def split: if_splits)
  have "0 \<le> int u mod (high + 1 - low)" "int u mod (high + 1 - low) < high + 1 - low"
    using lt by simp_all
  then show ?thesis using n by linarith
qed

lemma KeyForCASUpdate_next_in_shard:
  assumes "KeyForCASUpdate_next W pfx f u sid I = Inr k"
  shows "number k \<in> cas_shard W sid I"
proof -
  obtain n where n: "random_integers u (cas_left_boundary W sid I) (cas_right_boundary W sid I - 1) = Inr n"
    and k: "k = Key_init n pfx f False"
    using assms by (auto simp: KeyForCASUpdate_next_def split: if_splits sum.splits)
  from random_integers_bounds [OF n] show ?thesis
    by (simp add: k Key_init_def cas_shard_def)
qed

lemma KeyForCASUpdate_next_returns:
  assumes "0 < W" "W \<le> I"
  shows "\<exists>k. KeyForCASUpdate_next W pfx f u sid I = Inr k"
proof -
  have "0 < I div W" using assms by (simp add: pos_imp_zdiv_pos_iff)
  then show ?thesis using assms(1)
    by (simp add: KeyForCASUpdate_next_def random_integers_def cas_right_boundary_def)
qed

text \<open>
  C6. For \<open>n1ql_workers = W > 0\<close> and \<open>curr_items = I\<close>, the shard ranges
  \<open>[sid * (I div W), (sid + 1) * (I div W))\<close> of the shard ids \<open>0 .. W - 1\<close> are pairwise
  disjoint, their union is \<open>[0, I - I mod W)\<close>, that is \<open>[0, I)\<close> without the rounding
  remainder, and every key that \<open>KeyForCASUpdate.next(sid, I)\<close> returns has its number in
  the range of shard \<open>sid\<close>; the call does return a key when \<open>W \<le> I\<close>.
\<close>

theorem cas_update_shards_partition:
  assumes "0 < W"
  shows "(\<forall>sid\<in>{0..<W}. \<forall>sid'\<in>{0..<W}. sid \<noteq> sid'
            \<longrightarrow> cas_shard W sid I \<inter> cas_shard W sid' I = {})
       \<and> (\<Union>sid\<in>{0..<W}. cas_shard W sid I) = {0..<I - I mod W}
       \<and> (\<forall>k. KeyForCASUpdate_next W pfx f u sid I = Inr k \<longrightarrow> number k \<in> cas_shard W sid I)
       \<and> (W \<le> I \<longrightarrow> (\<exists>k. KeyForCASUpdate_next W pfx f u sid I = Inr k))"
proof (intro conjI ballI allI impI)
  fix a b :: int assume "a \<noteq> b"
  show "cas_shard W a I \<inter> cas_shard W b I = {}"
  proof (cases "a < b")
    case True
    then show ?thesis by (rule cas_shard_disjoint)
  next
    case False
    then have "b < a" using \<open>a \<noteq> b\<close> by simp
    then have "cas_shard W b I \<inter> cas_shard W a I = {}" by (rule cas_shard_disjoint)
    then show ?thesis by (simp only: Int_commute)
  qed
next
  show "(\<Union>sid\<in>{0..<W}. cas_shard W sid I) = {0..<I - I mod W}"
    by (rule cas_shard_union [OF assms])
next
  fix k assume "KeyForCASUpdate_next W pfx f u sid I = Inr k"
  then show "number k \<in> cas_shard W sid I" by (rule KeyForCASUpdate_next_in_shard)
next
  assume "W \<le> I"
  with assms show "\<exists>k. KeyForCASUpdate_next W pfx f u sid I = Inr k"
    by (rule KeyForCASUpdate_next_returns)
qed

theorem cas_update_shards_partition_witness:
  "cas_shard 4 0 103 \<inter> cas_shard 4 1 103 = {}
   \<and> (\<Union>sid\<in>{0..<4}. cas_shard 4 sid 103) = {0..<100}
   \<and> (\<exists>k. KeyForCASUpdate_next 4 ''p'' ''decimal'' 7 2 103 = Inr k
          \<and> number k \<in> cas_shard 4 2 103)"
proof -
  have h: "(0::int) < 4" by simp
  note t = cas_update_shards_partition [OF h, of 103 "''p''" "''decimal''" 7 2]
  have "\<forall>sid'\<in>{0..<4::int}. 0 \<noteq> sid' \<longrightarrow> cas_shard 4 0 103 \<inter> cas_shard 4 sid' 103 = {}"
    using t [THEN conjunct1] by (rule bspec) simp
  then have "0 \<noteq> (1::int) \<longrightarrow> cas_shard 4 0 103 \<inter> cas_shard 4 1 103 = {}"
    by (rule bspec) simp
  then have a: "cas_shard 4 0 103 \<inter> cas_shard 4 1 103 = {}" by simp
  have "(\<Union>sid\<in>{0..<4}. cas_shard 4 sid 103) = {0..<103 - 103 mod 4}"
    by (rule t [THEN conjunct2, THEN conjunct1])
  then have b: "(\<Union>sid\<in>{0..<4}. cas_shard 4 sid 103) = {0..<100}" by simp
  have "(4::int) \<le> 103" by simp
  with t [THEN conjunct2, THEN conjunct2, THEN conjunct2]
  obtain k where k: "KeyForCASUpdate_next 4 ''p'' ''decimal'' 7 2 103 = Inr k" by blast
  with t [THEN conjunct2, THEN conjunct2, THEN conjunct1]
  have "number k \<in> cas_shard 4 2 103" by blast
  with k have c: "\<exists>k. KeyForCASUpdate_next 4 ''p'' ''decimal'' 7 2 103 = Inr k
          \<and> number k \<in> cas_shard 4 2 103" by blast
  from a b c show ?thesis by blast
qed








lemma digit_val_digit_char: "d < 10 \<Longrightarrow> digit_val (digit_char d) = Some d"
  by (simp add: digit_val_def digit_char_def)

lemma digit_val_zero: "digit_val CHR ''0'' = Some 0"
  by (simp add: digit_val_def)

lemma parse_digits_append:
  "parse_digits (xs @ ys) acc =
     (case parse_digits xs acc of None \<Rightarrow> None | Some a \<Rightarrow> parse_digits ys a)"
  by (induction xs arbitrary: acc) (auto split: option.splits)

lemma parse_digits_str_base: "parse_digits (str_base 10 n) 0 = Some n"
proof (induction "10::nat" n rule: str_base.induct)
  case (1 n)
  show ?case
  proof (cases "n < 10")
    case True
    then show ?thesis
      by (simp add: str_base.simps [of 10 n] digit_val_digit_char)
  next
    case False
    then have ih: "parse_digits (str_base 10 (n div 10)) 0 = Some (n div 10)"
      using 1 by simp
    have "n mod 10 < 10" by simp
    then have d: "digit_val (digit_char (n mod 10)) = Some (n mod 10)"
      by (rule digit_val_digit_char)
    show ?thesis using False
      by (simp add: str_base.simps [of 10 n] parse_digits_append ih d)
  qed
qed

lemma parse_digits_zeros: "parse_digits (replicate k CHR ''0'' @ s) 0 = parse_digits s 0"
  by (induction k) (simp_all add: digit_val_zero)

lemma str_base_nonempty: "str_base b n \<noteq> []"
  by (subst str_base.simps) simp

lemma str_base_digits: "c \<in> set (str_base 10 n) \<Longrightarrow> digit_val c \<noteq> None"
proof (induction "10::nat" n rule: str_base.induct)
  case (1 n)
  show ?case
  proof (cases "n < 10")
    case True
    then show ?thesis using 1(2)
      by (auto simp: str_base.simps [of 10 n] digit_val_digit_char)
  next
    case False
    have "n mod 10 < 10" by simp
    then have d: "digit_val (digit_char (n mod 10)) = Some (n mod 10)"
      by (rule digit_val_digit_char)
    from 1(2) False have "c \<in> set (str_base 10 (n div 10)) \<or> c = digit_char (n mod 10)"
      by (auto simp: str_base.simps [of 10 n])
    then show ?thesis using 1(1) False d by auto
  qed
qed

lemma length_str_base_le:
  "0 < k \<Longrightarrow> n < 10 ^ k \<Longrightarrow> length (str_base 10 n) \<le> k"
proof (induction "10::nat" n arbitrary: k rule: str_base.induct)
  case (1 n)
  show ?case
  proof (cases "n < 10")
    case True
    then show ?thesis using 1(2) by (simp add: str_base.simps [of 10 n])
  next
    case False
    then obtain j where k: "k = Suc j" and "0 < j"
      using 1(2,3) by (cases k; cases "k - 1") auto
    have "n div 10 < 10 ^ j" using 1(3) k by (simp add: less_mult_imp_div_less mult.commute)
    then have "length (str_base 10 (n div 10)) \<le> j"
      using 1(1) False \<open>0 < j\<close> by simp
    then show ?thesis using False k by (simp add: str_base.simps [of 10 n])
  qed
qed

lemma fmt_zero_decimal_nonneg:
  assumes "0 \<le> k"
  shows "fmt_zero 10 12 k
       = replicate (12 - length (str_base 10 (nat k))) CHR ''0'' @ str_base 10 (nat k)"
  using assms by (simp add: fmt_zero_def)

lemma digit_portion_decimal_fmtr:
  "digit_portion pfx (decimal_fmtr num pfx) = fmt_zero 10 12 num"
  by (simp add: digit_portion_def decimal_fmtr_def Let_def)

text \<open>
  C9. For every number that is not negative and every prefix, \<open>decimal_fmtr\<close> returns
  the decimal digits of the number, zero-padded on the left to 12 digits (exactly 12
  characters below \<open>10 ^ 12\<close>, never fewer), prepended with \<open>prefix-\<close> when the prefix is
  not empty, and parsing the digit portion of the result back as an integer yields the
  number.
\<close>

theorem decimal_fmtr_roundtrip:
  assumes "0 \<le> num"
  shows "decimal_fmtr num pfx
           = (if pfx \<noteq> [] then pfx @ ''-'' else []) @ digit_portion pfx (decimal_fmtr num pfx)
       \<and> digit_portion pfx (decimal_fmtr num pfx)
           = replicate (12 - length (str_base 10 (nat num))) CHR ''0''
               @ str_base 10 (nat num)
       \<and> (\<forall>c \<in> set (digit_portion pfx (decimal_fmtr num pfx)). digit_val c \<noteq> None)
       \<and> 12 \<le> length (digit_portion pfx (decimal_fmtr num pfx))
       \<and> (num < 10 ^ 12 \<longrightarrow> length (digit_portion pfx (decimal_fmtr num pfx)) = 12)
       \<and> int_of_str (digit_portion pfx (decimal_fmtr num pfx)) = Inr num"
proof -
  define ds where "ds = str_base 10 (nat num)"
  define s where "s = replicate (12 - length ds) CHR ''0'' @ ds"
  have dp: "digit_portion pfx (decimal_fmtr num pfx) = s"
    using assms by (simp add: digit_portion_decimal_fmtr fmt_zero_decimal_nonneg s_def ds_def)
  have whole: "decimal_fmtr num pfx = (if pfx \<noteq> [] then pfx @ ''-'' else []) @ s"
    unfolding dp [symmetric] digit_portion_decimal_fmtr
    by (simp add: decimal_fmtr_def Let_def)
  have digits: "\<forall>c \<in> set s. digit_val c \<noteq> None"
    using str_base_digits by (auto simp: s_def ds_def digit_val_zero)
  have len: "12 \<le> length s" by (simp add: s_def)
  have len12: "length s = 12" if "num < 10 ^ 12"
  proof -
    have "nat num < 10 ^ 12" using that assms by (simp add: nat_less_iff)
    then have "length ds \<le> 12" unfolding ds_def by (intro length_str_base_le) simp_all
    then show ?thesis by (simp add: s_def)
  qed
  have ne: "s \<noteq> []" using len by auto
  have p: "parse_digits s 0 = Some (nat num)"
    by (simp add: s_def ds_def parse_digits_zeros parse_digits_str_base)
  have hd: "hd s \<noteq> CHR ''-''"
  proof
    assume "hd s = CHR ''-''"
    moreover have "hd s \<in> set s" using ne by simp
    ultimately have "digit_val CHR ''-'' \<noteq> None" using digits by metis
    then show False by (simp add: digit_val_def)
  qed
  have rt: "int_of_str s = Inr num"
    using ne hd p assms by (cases s) (simp_all add: int_of_str_def)
  show ?thesis
    unfolding dp using whole digits len len12 rt by (simp add: s_def ds_def)
qed

theorem decimal_fmtr_roundtrip_witness:
  "decimal_fmtr 42 ''p'' = ''p-000000000042''
   \<and> digit_portion ''p'' (decimal_fmtr 42 ''p'') = ''000000000042''
   \<and> int_of_str (digit_portion ''p'' (decimal_fmtr 42 ''p'')) = Inr 42
   \<and> length (digit_portion ''p'' (decimal_fmtr 42 ''p'')) = 12"
proof -
  have h: "(0::int) \<le> 42" by simp
  note t = decimal_fmtr_roundtrip [OF h, of "''p''"]
  have a: "decimal_fmtr 42 ''p'' = ''p-000000000042''" by code_simp
  have b: "digit_portion ''p'' (decimal_fmtr 42 ''p'') = ''000000000042''" by code_simp
  from t have c: "int_of_str (digit_portion ''p'' (decimal_fmtr 42 ''p'')) = Inr 42"
    by (elim conjE)
  from t have "(42::int) < 10 ^ 12
      \<longrightarrow> length (digit_portion ''p'' (decimal_fmtr 42 ''p'')) = 12"
    by (elim conjE)
  then have d: "length (digit_portion ''p'' (decimal_fmtr 42 ''p'')) = 12"
    by simp
  from a b c d show ?thesis by blast
qed



text \<open>
  By contrast, a synthesizer that draws from \<open>random\<close> gives different documents for
  different draws.
\<close>

lemma incompressible_depends_on_draw:
  "incompressible_build_string 0 ''abcdef'' 2 \<noteq> incompressible_build_string 1 ''abcdef'' 2"
  by (simp add: incompressible_build_string_def randint_def randrange_def)

lemma div_nonpos: "x div step \<le> (0::int)" if "0 < step" "x < step"
proof (cases "x < 0")
  case True
  then show ?thesis using that by (simp add: div_neg_pos_less0 less_imp_le)
next
  case False
  then show ?thesis using that by (simp add: div_pos_pos_trivial)
qed

lemma range_up_progression:
  "0 < step \<Longrightarrow> range_up i stop step = progression_below i stop step"
proof (induction i stop step rule: range_up.induct)
  case (1 i stop step)
  note pos = \<open>0 < step\<close>
  show ?case
  proof (cases "i < stop")
    case False
    then have "stop - i + step - 1 < step" by simp
    then have "(stop - i + step - 1) div step \<le> 0" using pos by (intro div_nonpos)
    then show ?thesis using False
      by (simp add: range_up.simps [of i stop step] progression_below_def)
  next
    case True
    define m where "m = nat ((stop - (i + step) + step - 1) div step)"
    have "(stop - i + step - 1) div step = (stop - (i + step) + step - 1) div step + 1"
    proof -
      have "stop - i + step - 1 = (stop - (i + step) + step - 1) + step" by simp
      then show ?thesis using pos by (metis div_add_self2 less_irrefl)
    qed
    moreover have "0 \<le> (stop - (i + step) + step - 1) div step"
      using True pos by (simp add: pos_imp_zdiv_nonneg_iff)
    ultimately have c: "nat ((stop - i + step - 1) div step) = Suc m"
      by (simp add: m_def nat_add_distrib)
    have ih: "range_up (i + step) stop step = progression_below (i + step) stop step"
      using 1 True by simp
    have "progression_below i stop step
        = i # map (\<lambda>j. i + int (Suc j) * step) [0..<m]"
      unfolding progression_below_def c
      by (simp add: upt_conv_Cons map_Suc_upt [symmetric] del: upt_Suc)
    also have "map (\<lambda>j. i + int (Suc j) * step) [0..<m] = progression_below (i + step) stop step"
      by (simp add: progression_below_def m_def algebra_simps)
    finally show ?thesis using True pos ih by (simp add: range_up.simps [of i stop step])
  qed
qed

lemma range_up_set:
  "0 < step \<Longrightarrow> set (range_up i stop step) = {n. i \<le> n \<and> n < stop \<and> step dvd (n - i)}"
proof (induction i stop step rule: range_up.induct)
  case (1 i stop step)
  note pos = \<open>0 < step\<close>
  show ?case
  proof (cases "i < stop")
    case False
    then show ?thesis by (auto simp: range_up.simps [of i stop step])
  next
    case True
    have ih: "set (range_up (i + step) stop step)
        = {n. i + step \<le> n \<and> n < stop \<and> step dvd (n - (i + step))}"
      using 1 True by simp
    have "{n. i \<le> n \<and> n < stop \<and> step dvd (n - i)}
        = insert i {n. i + step \<le> n \<and> n < stop \<and> step dvd (n - (i + step))}"
    proof (intro set_eqI iffI)
      fix n assume "n \<in> {n. i \<le> n \<and> n < stop \<and> step dvd (n - i)}"
      then have n: "i \<le> n" "n < stop" "step dvd (n - i)" by simp_all
      show "n \<in> insert i {n. i + step \<le> n \<and> n < stop \<and> step dvd (n - (i + step))}"
      proof (cases "n = i")
        case True then show ?thesis by simp
      next
        case False
        then have "0 < n - i" using n by simp
        then have "step \<le> n - i" using n(3) by (simp add: zdvd_imp_le)
        moreover have "step dvd (n - (i + step))"
          using n(3) by (metis diff_diff_add dvd_diff dvd_refl)
        ultimately show ?thesis using n by simp
      qed
    next
      fix n assume "n \<in> insert i {n. i + step \<le> n \<and> n < stop \<and> step dvd (n - (i + step))}"
      then consider "n = i" | "i + step \<le> n" "n < stop" "step dvd (n - (i + step))" by auto
      then show "n \<in> {n. i \<le> n \<and> n < stop \<and> step dvd (n - i)}"
      proof cases
        case 1 then show ?thesis using True by simp
      next
        case 2
        have "step dvd (n - (i + step)) + step" using 2(3) by (metis dvd_add dvd_refl)
        then have "step dvd (n - i)" by (simp add: algebra_simps)
        then show ?thesis using 2 pos by simp
      qed
    qed
    then show ?thesis using True pos ih by (simp add: range_up.simps [of i stop step])
  qed
qed

lemma range_up_distinct: "0 < step \<Longrightarrow> distinct (range_up i stop step)"
proof (induction i stop step rule: range_up.induct)
  case (1 i stop step)
  note pos = \<open>0 < step\<close>
  show ?case
  proof (cases "i < stop")
    case False
    then show ?thesis by (simp add: range_up.simps [of i stop step])
  next
    case True
    have "i \<notin> set (range_up (i + step) stop step)"
      using pos by (simp add: range_up_set)
    moreover have "distinct (range_up (i + step) stop step)" using 1 True by simp
    ultimately show ?thesis using True pos by (simp add: range_up.simps [of i stop step])
  qed
qed

lemma count_concat: "count (mset (concat xss)) n = (\<Sum>xs\<leftarrow>xss. count (mset xs) n)"
  by (induction xss) simp_all

lemma sum_list_indicator:
  "(\<Sum>x\<leftarrow>xs. if P x then 1 else (0::nat)) = length (filter P xs)"
  by (induction xs) simp_all

lemma shard_of_number:
  fixes W n stop :: int
  assumes "0 < W"
  shows "{sid. 0 \<le> sid \<and> sid \<le> W - 1 \<and> sid \<le> n \<and> n < stop \<and> W dvd (n - sid)}
       = (if 0 \<le> n \<and> n < stop then {n mod W} else {})"
proof (cases "0 \<le> n \<and> n < stop")
  case False
  then have "\<not> (0 \<le> sid \<and> sid \<le> n \<and> n < stop)" for sid by arith
  then have "{sid. 0 \<le> sid \<and> sid \<le> W - 1 \<and> sid \<le> n \<and> n < stop \<and> W dvd (n - sid)} = {}"
    by blast
  then show ?thesis unfolding if_not_P [OF False] .
next
  case True
  have only: "sid = n mod W" if "0 \<le> sid" "sid \<le> W - 1" "W dvd (n - sid)" for sid
  proof -
    have "n mod W = sid mod W" using that(3) by (simp only: mod_eq_dvd_iff)
    moreover have "sid mod W = sid" using that(1,2) by simp
    ultimately show ?thesis by simp
  qed
  have 1: "0 \<le> n mod W" "n mod W \<le> W - 1" using assms by simp_all
  have 2: "n mod W \<le> n" using assms True by (simp add: zmod_le_nonneg_dividend)
  have 3: "W dvd (n - n mod W)" by (simp add: minus_mod_eq_mult_div)
  have "{sid. 0 \<le> sid \<and> sid \<le> W - 1 \<and> sid \<le> n \<and> n < stop \<and> W dvd (n - sid)} = {n mod W}"
  proof (intro set_eqI iffI)
    fix x assume "x \<in> {sid. 0 \<le> sid \<and> sid \<le> W - 1 \<and> sid \<le> n \<and> n < stop \<and> W dvd (n - sid)}"
    then have "0 \<le> x" "x \<le> W - 1" "W dvd (n - x)" by simp_all
    then have "x = n mod W" by (rule only)
    then show "x \<in> {n mod W}" by simp
  next
    fix x assume "x \<in> {n mod W}"
    then have "x = n mod W" by simp
    then show "x \<in> {sid. 0 \<le> sid \<and> sid \<le> W - 1 \<and> sid \<le> n \<and> n < stop \<and> W dvd (n - sid)}"
      using 1 2 3 True by simp
  qed
  then show ?thesis unfolding if_P [OF True] .
qed

lemma sequential_cover:
  fixes W stop :: int
  assumes "0 < W"
  shows "mset (concat (map (\<lambda>sid. range_up sid stop W) [0..W - 1])) = mset [0..stop - 1]"
proof (rule multiset_eqI)
  fix n
  have "count (mset (concat (map (\<lambda>sid. range_up sid stop W) [0..W - 1]))) n
      = (\<Sum>sid\<leftarrow>[0..W - 1]. if sid \<le> n \<and> n < stop \<and> W dvd (n - sid) then 1 else 0)"
  proof -
    have "count (mset (range_up sid stop W)) n
        = (if sid \<le> n \<and> n < stop \<and> W dvd (n - sid) then 1 else 0)" for sid
    proof -
      have "distinct (range_up sid stop W)" using assms by (rule range_up_distinct)
      then have "count (mset (range_up sid stop W)) n
          = (if n \<in> set (range_up sid stop W) then 1 else 0)"
        by (simp only: distinct_count_atmost_1)
      then show ?thesis using assms by (simp add: range_up_set)
    qed
    then show ?thesis by (simp add: count_concat comp_def)
  qed
  also have "\<dots> = length (filter (\<lambda>sid. sid \<le> n \<and> n < stop \<and> W dvd (n - sid)) [0..W - 1])"
    by (rule sum_list_indicator)
  also have "\<dots> = card ({sid. sid \<le> n \<and> n < stop \<and> W dvd (n - sid)} \<inter> set [0..W - 1])"
    by (simp add: distinct_length_filter)
  also have "{sid. sid \<le> n \<and> n < stop \<and> W dvd (n - sid)} \<inter> set [0..W - 1]
      = {sid. 0 \<le> sid \<and> sid \<le> W - 1 \<and> sid \<le> n \<and> n < stop \<and> W dvd (n - sid)}"
    by auto
  also have "card \<dots> = (if 0 \<le> n \<and> n < stop then 1 else 0)"
    unfolding shard_of_number [OF assms] by simp
  also have "\<dots> = count (mset [0..stop - 1]) n"
  proof -
    have "distinct [0..stop - 1]" by simp
    then have "count (mset [0..stop - 1]) n = (if n \<in> set [0..stop - 1] then 1 else 0)"
      by (simp only: distinct_count_atmost_1)
    then show ?thesis by auto
  qed
  finally show "count (mset (concat (map (\<lambda>sid. range_up sid stop W) [0..W - 1]))) n
      = count (mset [0..stop - 1]) n" .
qed

lemma SequentialKey_iter_eq:
  assumes "1 \<le> workers ws"
  shows "SequentialKey_iter sid ws pfx
       = Inr (map (\<lambda>seq_id. Key_init seq_id pfx (key_fmtr ws) False)
           (range_up sid (items ws) (workers ws)))"
  using assms by (simp add: SequentialKey_iter_def py_range_def)

lemma map_number_Key_init: "map number (map (\<lambda>n. Key_init n p f h) ns) = ns"
  by (induction ns) (simp_all add: Key_init_def)

text \<open>
  C10. For every number of workers \<open>W \<ge> 1\<close> and every item count, \<open>SequentialKey(sid)\<close>
  yields, for each \<open>sid\<close>, the keys whose numbers are the arithmetic progression
  \<open>sid, sid + W, sid + 2W, ...\<close> below \<open>items\<close>, and the numbers yielded for
  \<open>sid = 0, ..., W - 1\<close> together are every integer of \<open>[0, items)\<close> exactly once.
\<close>

theorem sequential_keys_cover:
  assumes "1 \<le> workers ws"
  shows "(\<forall>sid. \<exists>ks. SequentialKey_iter sid ws pfx = Inr ks
            \<and> map number ks = progression_below sid (items ws) (workers ws))
       \<and> (\<exists>kss. map (\<lambda>sid. SequentialKey_iter sid ws pfx) [0..workers ws - 1] = map Inr kss
            \<and> mset (map number (concat kss)) = mset [0..items ws - 1])"
proof -
  have pos: "0 < workers ws" using assms by simp
  define mk where "mk = (\<lambda>seq_id. Key_init seq_id pfx (key_fmtr ws) False)"
  have it: "SequentialKey_iter sid ws pfx = Inr (map mk (range_up sid (items ws) (workers ws)))"
    for sid
    unfolding mk_def using assms by (rule SequentialKey_iter_eq)
  have nums: "map number (map mk ns) = ns" for ns
    unfolding mk_def by (rule map_number_Key_init)
  have each: "\<exists>ks. SequentialKey_iter sid ws pfx = Inr ks
            \<and> map number ks = progression_below sid (items ws) (workers ws)" for sid
    using it [of sid] nums range_up_progression [OF pos] by simp
  define kss where
    "kss = map (\<lambda>sid. map mk (range_up sid (items ws) (workers ws))) [0..workers ws - 1]"
  have a: "map (\<lambda>sid. SequentialKey_iter sid ws pfx) [0..workers ws - 1] = map Inr kss"
    by (simp add: kss_def it comp_def)
  have "map number (concat kss)
      = concat (map (\<lambda>sid. range_up sid (items ws) (workers ws)) [0..workers ws - 1])"
  proof -
    have "number (mk x) = x" for x by (simp add: mk_def Key_init_def)
    then show ?thesis by (simp add: kss_def map_concat comp_def)
  qed
  then have b: "mset (map number (concat kss)) = mset [0..items ws - 1]"
    using sequential_cover [OF pos] by simp
  from each a b show ?thesis by blast
qed

theorem sequential_keys_cover_witness:
  "(\<exists>ks. SequentialKey_iter 1
        \<lparr>items = 10, workers = 3, working_set = 100, working_set_access = 100,
         working_set_moving_docs = 0, key_fmtr = ''decimal'', creates = 0, reads = 0,
         updates = 0, deletes = 0, reads_and_updates = 0\<rparr> ''p'' = Inr ks
      \<and> map number ks = [1, 4, 7])
   \<and> (\<exists>kss. map (\<lambda>sid. SequentialKey_iter sid
        \<lparr>items = 10, workers = 3, working_set = 100, working_set_access = 100,
         working_set_moving_docs = 0, key_fmtr = ''decimal'', creates = 0, reads = 0,
         updates = 0, deletes = 0, reads_and_updates = 0\<rparr> ''p'') [0, 1, 2] = map Inr kss
      \<and> mset (map number (concat kss)) = mset [0, 1, 2, 3, 4, 5, 6, 7, 8, 9])"
proof -
  define ws where "ws = \<lparr>items = 10, workers = 3, working_set = 100, working_set_access = 100,
         working_set_moving_docs = 0, key_fmtr = ''decimal'', creates = 0, reads = 0,
         updates = 0, deletes = 0, reads_and_updates = 0\<rparr>"
  have h: "1 \<le> workers ws" by (simp add: ws_def)
  note t = sequential_keys_cover [OF h, of "''p''"]
  have p: "progression_below 1 (items ws) (workers ws) = [1, 4, 7]"
    unfolding ws_def by code_simp
  have u: "[0..workers ws - 1] = [0, 1, 2]" unfolding ws_def by code_simp
  have v: "[0..items ws - 1] = [0, 1, 2, 3, 4, 5, 6, 7, 8, 9]" unfolding ws_def by code_simp
  from t have "\<exists>ks. SequentialKey_iter 1 ws ''p'' = Inr ks
      \<and> map number ks = progression_below 1 (items ws) (workers ws)" by blast
  then have a: "\<exists>ks. SequentialKey_iter 1 ws ''p'' = Inr ks \<and> map number ks = [1, 4, 7]"
    unfolding p .
  from t have "\<exists>kss. map (\<lambda>sid. SequentialKey_iter sid ws ''p'') [0..workers ws - 1] = map Inr kss
      \<and> mset (map number (concat kss)) = mset [0..items ws - 1]" by blast
  then have b: "\<exists>kss. map (\<lambda>sid. SequentialKey_iter sid ws ''p'') [0, 1, 2] = map Inr kss
      \<and> mset (map number (concat kss)) = mset [0, 1, 2, 3, 4, 5, 6, 7, 8, 9]"
    unfolding u v .
  from a b show ?thesis unfolding ws_def by blast
qed

lemma cmd_loop_groups:
  "cmd_loop nxt docs ws pfx ops ci di g acc = (g', Inr cmds) \<Longrightarrow>
     \<exists>gs. cmds = acc @ concat gs \<and> batch_cmds docs ws pfx ops ci di gs"
proof (induction ops arbitrary: ci di g acc)
  case Nil
  then show ?case by simp
next
  case (Cons op ops)
  consider (c) "op = CHR ''c''" | (r) "op = CHR ''r''" | (u) "op = CHR ''u''"
    | (d) "op = CHR ''d''" | (m) "op = CHR ''m''"
    | (other) "op \<noteq> CHR ''c''" "op \<noteq> CHR ''r''" "op \<noteq> CHR ''u''" "op \<noteq> CHR ''d''"
        "op \<noteq> CHR ''m''"
    by blast
  then show ?case
  proof cases
    case c
    with Cons.prems have
      "cmd_loop nxt docs ws pfx ops (ci + 1) di g (acc @ create_args docs ws pfx ci) = (g', Inr cmds)"
      by simp
    from Cons.IH [OF this] obtain gs where
      gs: "cmds = (acc @ create_args docs ws pfx ci) @ concat gs"
        "batch_cmds docs ws pfx ops (ci + 1) di gs" by blast
    have "token_cmds docs ws pfx op ci di (create_args docs ws pfx ci)"
      using c by (simp add: create_args_def NewOrderedKey_next_def Let_def)
    then have "batch_cmds docs ws pfx (op # ops) ci di (create_args docs ws pfx ci # gs)"
      using gs(2) c by simp
    moreover have "cmds = acc @ concat (create_args docs ws pfx ci # gs)" using gs(1) by simp
    ultimately show ?thesis by blast
  next
    case d
    with Cons.prems have
      "cmd_loop nxt docs ws pfx ops ci (di + 1) g (acc @ delete_args ws pfx di) = (g', Inr cmds)"
      by simp
    from Cons.IH [OF this] obtain gs where
      gs: "cmds = (acc @ delete_args ws pfx di) @ concat gs"
        "batch_cmds docs ws pfx ops ci (di + 1) gs" by blast
    have "token_cmds docs ws pfx op ci di (delete_args ws pfx di)"
      using d by (simp add: delete_args_def KeyForRemoval_next_def Let_def)
    then have "batch_cmds docs ws pfx (op # ops) ci di (delete_args ws pfx di # gs)"
      using gs(2) d by simp
    moreover have "cmds = acc @ concat (delete_args ws pfx di # gs)" using gs(1) by simp
    ultimately show ?thesis by blast
  next
    case r
    with Cons.prems obtain g1 k where
      k: "nxt g ci di False = (g1, Inr k)"
      and rest: "cmd_loop nxt docs ws pfx ops ci di g1 (acc @ [(''get'', cb_read, k, None)])
         = (g', Inr cmds)"
      by (auto simp: read_args_def split: prod.splits sum.splits)
    from Cons.IH [OF rest] obtain gs where
      gs: "cmds = (acc @ [(''get'', cb_read, k, None)]) @ concat gs"
        "batch_cmds docs ws pfx ops ci di gs" by blast
    have "batch_cmds docs ws pfx (op # ops) ci di ([(''get'', cb_read, k, None)] # gs)"
      using gs(2) r by simp
    moreover have "cmds = acc @ concat ([(''get'', cb_read, k, None)] # gs)"
      using gs(1) by simp
    ultimately show ?thesis by blast
  next
    case u
    with Cons.prems obtain g1 k where
      k: "nxt g ci di True = (g1, Inr k)"
      and rest: "cmd_loop nxt docs ws pfx ops ci di g1
           (acc @ [(''set'', cb_update, k, Some (docs k))]) = (g', Inr cmds)"
      by (auto simp: update_args_def split: prod.splits sum.splits)
    from Cons.IH [OF rest] obtain gs where
      gs: "cmds = (acc @ [(''set'', cb_update, k, Some (docs k))]) @ concat gs"
        "batch_cmds docs ws pfx ops ci di gs" by blast
    have "batch_cmds docs ws pfx (op # ops) ci di ([(''set'', cb_update, k, Some (docs k))] # gs)"
      using gs(2) u by simp
    moreover have "cmds = acc @ concat ([(''set'', cb_update, k, Some (docs k))] # gs)"
      using gs(1) by simp
    ultimately show ?thesis by blast
  next
    case m
    with Cons.prems obtain g1 k where
      k: "nxt g ci di False = (g1, Inr k)"
      and rest: "cmd_loop nxt docs ws pfx ops ci di g1
           (acc @ [(''get'', cb_read, k, None), (''set'', cb_update, k, Some (docs k))])
         = (g', Inr cmds)"
      by (auto simp: modify_args_def split: prod.splits sum.splits)
    from Cons.IH [OF rest] obtain gs where
      gs: "cmds = (acc @ [(''get'', cb_read, k, None), (''set'', cb_update, k, Some (docs k))])
             @ concat gs"
        "batch_cmds docs ws pfx ops ci di gs" by blast
    have "batch_cmds docs ws pfx (op # ops) ci di
        ([(''get'', cb_read, k, None), (''set'', cb_update, k, Some (docs k))] # gs)"
      using gs(2) m by simp
    moreover have "cmds = acc @ concat
        ([(''get'', cb_read, k, None), (''set'', cb_update, k, Some (docs k))] # gs)"
      using gs(1) by simp
    ultimately show ?thesis by blast
  next
    case other
    with Cons.prems have "cmd_loop nxt docs ws pfx ops ci di g acc = (g', Inr cmds)" by simp
    from Cons.IH [OF this] obtain gs where
      gs: "cmds = acc @ concat gs" "batch_cmds docs ws pfx ops ci di gs" by blast
    have "batch_cmds docs ws pfx (op # ops) ci di ([] # gs)" using gs(2) other by simp
    moreover have "cmds = acc @ concat ([] # gs)" using gs(1) by simp
    ultimately show ?thesis by blast
  qed
qed

lemma cmd_loop_returns:
  assumes "\<And>g ci di b. \<exists>g' k. nxt g ci di b = (g', Inr k)"
  shows "\<exists>g' cmds. cmd_loop nxt docs ws pfx ops ci di g acc = (g', Inr cmds)"
proof (induction ops arbitrary: ci di g acc)
  case Nil
  then show ?case by simp
next
  case (Cons op ops)
  obtain g1 k1 where 1: "nxt g ci di False = (g1, Inr k1)" using assms by blast
  obtain g2 k2 where 2: "nxt g ci di True = (g2, Inr k2)" using assms by blast
  show ?case using Cons.IH 1 2
    by (simp add: read_args_def update_args_def modify_args_def)
qed

lemma key_numbers_append [simp]:
  "key_numbers f (xs @ ys) = key_numbers f xs @ key_numbers f ys"
  by (simp add: key_numbers_def)

lemma key_numbers_Nil [simp]: "key_numbers f [] = []"
  by (simp add: key_numbers_def)

lemma token_cmds_numbers:
  assumes "token_cmds docs ws pfx op ci di grp"
  shows "key_numbers cb_create grp = (if op = CHR ''c'' then [ci] else [])"
    and "key_numbers cb_delete grp = (if op = CHR ''d'' then [di] else [])"
    and "length (key_numbers cb_read grp) = (if op = CHR ''r'' \<or> op = CHR ''m'' then 1 else 0)"
    and "length (key_numbers cb_update grp) = (if op = CHR ''u'' \<or> op = CHR ''m'' then 1 else 0)"
  using assms
  by (induction docs ws pfx op ci di grp rule: token_cmds.induct;
      auto simp: key_numbers_def Key_init_def)+

lemma progression_Suc:
  "map (\<lambda>j. c + int j) [0..<Suc n] = c # map (\<lambda>j. (c + 1) + int j) [0..<n]"
  by (simp add: upt_conv_Cons map_Suc_upt [symmetric] algebra_simps del: upt_Suc)

lemma batch_cmds_numbers:
  "batch_cmds docs ws pfx ops ci di gs \<Longrightarrow>
     key_numbers cb_create (concat gs) = map (\<lambda>j. ci + int j) [0..<count_list ops CHR ''c'']
   \<and> key_numbers cb_delete (concat gs) = map (\<lambda>j. di + int j) [0..<count_list ops CHR ''d'']
   \<and> length (key_numbers cb_read (concat gs))
       = count_list ops CHR ''r'' + count_list ops CHR ''m''
   \<and> length (key_numbers cb_update (concat gs))
       = count_list ops CHR ''u'' + count_list ops CHR ''m''"
proof (induction docs ws pfx ops ci di gs rule: batch_cmds.induct)
  case (1 docs ws pfx ci di gs)
  then show ?case by simp
next
  case (2 docs ws pfx op ops ci di)
  then show ?case by simp
next
  case (3 docs ws pfx op ops ci di grp gs)
  from 3(2) have t: "token_cmds docs ws pfx op ci di grp"
    and b: "batch_cmds docs ws pfx ops (if op = CHR ''c'' then ci + 1 else ci)
          (if op = CHR ''d'' then di + 1 else di) gs" by simp_all
  note ih = 3(1) [OF b]
  note tk = token_cmds_numbers [OF t]
  have c: "key_numbers cb_create (concat (grp # gs))
      = map (\<lambda>j. ci + int j) [0..<count_list (op # ops) CHR ''c'']"
    using ih tk(1) by (simp add: progression_Suc del: upt_Suc)
  have d: "key_numbers cb_delete (concat (grp # gs))
      = map (\<lambda>j. di + int j) [0..<count_list (op # ops) CHR ''d'']"
    using ih tk(2) by (simp add: progression_Suc del: upt_Suc)
  have r: "length (key_numbers cb_read (concat (grp # gs)))
       = count_list (op # ops) CHR ''r'' + count_list (op # ops) CHR ''m''"
    using ih tk(3) by auto
  have u: "length (key_numbers cb_update (concat (grp # gs)))
       = count_list (op # ops) CHR ''u'' + count_list (op # ops) CHR ''m''"
    using ih tk(4) by auto
  from c d r u show ?case by blast
qed

lemma count_list_replicate: "count_list (replicate n x) y = (if x = y then n else 0)"
  by (induction n) auto

lemma random_ops_counts:
  assumes "random_ops ws ops"
  shows "count_list ops CHR ''c'' = creates ws \<and> count_list ops CHR ''r'' = reads ws
       \<and> count_list ops CHR ''u'' = updates ws \<and> count_list ops CHR ''d'' = deletes ws
       \<and> count_list ops CHR ''m'' = reads_and_updates ws div 2
       \<and> length ops = creates ws + reads ws + updates ws + deletes ws
           + reads_and_updates ws div 2"
proof -
  have m: "mset ops = mset (ordered_ops ws)" using assms by (simp add: random_ops_def)
  have "count_list ops x = count_list (ordered_ops ws) x" for x
    using m by (metis count_mset)
  moreover have "length ops = length (ordered_ops ws)" using m by (rule mset_eq_length)
  ultimately show ?thesis by (simp add: ordered_ops_def count_list_replicate)
qed

lemma reserve_counters:
  "shared_curr_items (snd (reserve_deleted_keys ws (snd (reserve_new_keys ws sh))))
     = shared_curr_items sh + int (creates ws)
   \<and> shared_deleted_items (snd (reserve_deleted_keys ws (snd (reserve_new_keys ws sh))))
     = shared_deleted_items sh + int (deletes ws)
   \<and> lock_count (snd (reserve_deleted_keys ws (snd (reserve_new_keys ws sh))))
     = lock_count sh + (if creates ws \<noteq> 0 then 1 else 0) + (if deletes ws \<noteq> 0 then 1 else 0)
   \<and> fst (reserve_new_keys ws sh)
     = (if creates ws \<noteq> 0 then shared_curr_items sh else items ws)
   \<and> fst (reserve_deleted_keys ws (snd (reserve_new_keys ws sh)))
     = (if deletes ws \<noteq> 0 then shared_deleted_items sh + int (deletes ws) * workers ws else 0)"
  by (simp add: reserve_new_keys_def reserve_deleted_keys_def)

lemma gen_cmd_sequence_eq:
  "gen_cmd_sequence nxt docs ws pfx ops sh g =
     (snd (reserve_deleted_keys ws (snd (reserve_new_keys ws sh))),
      cmd_loop nxt docs ws pfx ops (fst (reserve_new_keys ws sh))
        (fst (reserve_deleted_keys ws (snd (reserve_new_keys ws sh)))) g [])"
  by (simp add: gen_cmd_sequence_def split_def Let_def)

text \<open>
  C4 (as amended). For every workload settings and every order \<open>ops\<close> the shuffle can
  produce, one call to \<open>gen_cmd_sequence\<close> takes the lock at most twice: once to reserve
  new-key space when \<open>ws.creates\<close> is not zero (\<open>curr_items\<close> is incremented once by
  \<open>ws.creates\<close>; with no creates the lock is not taken and the local counter starts at
  \<open>ws.items\<close>), and once to reserve deleted-key space when \<open>ws.deletes\<close> is not zero
  (\<open>deleted_items\<close> is incremented once by \<open>ws.deletes\<close>, the first removal key being the
  old \<open>deleted_items + ws.deletes * ws.workers\<close>). When the call returns, its command
  sequence is the concatenation of one group per token, resolved in order: a create
  command for the next reserved key, a read, an update, a delete command for the next
  removal key, or for a modify token one read and one update command on the same sampled
  key. So the create commands carry the \<open>ws.creates\<close> consecutive key numbers from the
  snapshot, the delete commands the \<open>ws.deletes\<close> consecutive removal keys, and there are
  \<open>ws.reads\<close> read tokens, \<open>ws.updates\<close> update tokens and \<open>ws.reads_and_updates div 2\<close>
  modify pairs. The call returns whenever the generator of existing keys does not raise.
\<close>

theorem gen_cmd_sequence_batch:
  assumes "random_ops ws ops"
  shows "(case gen_cmd_sequence nxt docs ws pfx ops sh g of (sh', g', res) \<Rightarrow>
           shared_curr_items sh' = shared_curr_items sh + int (creates ws)
         \<and> shared_deleted_items sh' = shared_deleted_items sh + int (deletes ws)
         \<and> lock_count sh' = lock_count sh + (if creates ws \<noteq> 0 then 1 else 0)
                               + (if deletes ws \<noteq> 0 then 1 else 0)
         \<and> (\<forall>cmds. res = Inr cmds \<longrightarrow>
               (let c0 = (if creates ws \<noteq> 0 then shared_curr_items sh else items ws);
                    d0 = (if deletes ws \<noteq> 0
                          then shared_deleted_items sh + int (deletes ws) * workers ws else 0)
                in (\<exists>gs. cmds = concat gs \<and> batch_cmds docs ws pfx ops c0 d0 gs)
                 \<and> key_numbers cb_create cmds = map (\<lambda>j. c0 + int j) [0..<creates ws]
                 \<and> key_numbers cb_delete cmds = map (\<lambda>j. d0 + int j) [0..<deletes ws]
                 \<and> length (key_numbers cb_read cmds) = reads ws + reads_and_updates ws div 2
                 \<and> length (key_numbers cb_update cmds)
                     = updates ws + reads_and_updates ws div 2))
         \<and> ((\<forall>g ci di b. \<exists>g' k. nxt g ci di b = (g', Inr k)) \<longrightarrow> (\<exists>cmds. res = Inr cmds)))
       \<and> count_list ops CHR ''c'' = creates ws \<and> count_list ops CHR ''r'' = reads ws
       \<and> count_list ops CHR ''u'' = updates ws \<and> count_list ops CHR ''d'' = deletes ws
       \<and> count_list ops CHR ''m'' = reads_and_updates ws div 2
       \<and> length ops = creates ws + reads ws + updates ws + deletes ws
           + reads_and_updates ws div 2"
proof -
  note cnt = random_ops_counts [OF assms]
  define c0 where "c0 = (if creates ws \<noteq> 0 then shared_curr_items sh else items ws)"
  define d0 where "d0 = (if deletes ws \<noteq> 0
      then shared_deleted_items sh + int (deletes ws) * workers ws else 0)"
  define sh' where "sh' = snd (reserve_deleted_keys ws (snd (reserve_new_keys ws sh)))"
  obtain g' res where loop: "cmd_loop nxt docs ws pfx ops c0 d0 g [] = (g', res)"
    by (cases "cmd_loop nxt docs ws pfx ops c0 d0 g []") 
  have gen: "gen_cmd_sequence nxt docs ws pfx ops sh g = (sh', g', res)"
    using loop reserve_counters [of ws sh]
    by (simp add: gen_cmd_sequence_eq sh'_def c0_def d0_def)
  have st: "shared_curr_items sh' = shared_curr_items sh + int (creates ws)"
    "shared_deleted_items sh' = shared_deleted_items sh + int (deletes ws)"
    "lock_count sh' = lock_count sh + (if creates ws \<noteq> 0 then 1 else 0)
                               + (if deletes ws \<noteq> 0 then 1 else 0)"
    unfolding sh'_def using reserve_counters [of ws sh] by simp_all
  have ok: "(\<exists>gs. cmds = concat gs \<and> batch_cmds docs ws pfx ops c0 d0 gs)
          \<and> key_numbers cb_create cmds = map (\<lambda>j. c0 + int j) [0..<creates ws]
          \<and> key_numbers cb_delete cmds = map (\<lambda>j. d0 + int j) [0..<deletes ws]
          \<and> length (key_numbers cb_read cmds) = reads ws + reads_and_updates ws div 2
          \<and> length (key_numbers cb_update cmds) = updates ws + reads_and_updates ws div 2"
    if "res = Inr cmds" for cmds
  proof -
    from loop that have "cmd_loop nxt docs ws pfx ops c0 d0 g [] = (g', Inr cmds)" by simp
    from cmd_loop_groups [OF this] obtain gs where
      gs: "cmds = concat gs" "batch_cmds docs ws pfx ops c0 d0 gs" by auto
    from batch_cmds_numbers [OF gs(2)] cnt gs show ?thesis by auto
  qed
  have ret: "\<exists>cmds. res = Inr cmds" if "\<forall>g ci di b. \<exists>g' k. nxt g ci di b = (g', Inr k)"
  proof -
    from that have "\<exists>g' k. nxt g ci di b = (g', Inr k)" for g ci di b by blast
    from cmd_loop_returns [of nxt docs ws pfx ops c0 d0 g "[]", OF this] loop
    show ?thesis by auto
  qed
  show ?thesis
    unfolding gen Let_def c0_def [symmetric] d0_def [symmetric]
    using st ok ret cnt by simp
qed

theorem gen_cmd_sequence_batch_witness:
  "\<exists>sh' g' cmds.
     gen_cmd_sequence
       (\<lambda>g ci di b. case g of [] \<Rightarrow> ([], Inl ValueError)
                    | u # us \<Rightarrow> (us, UniformKey_next ''p'' ''decimal'' u ci di))
       number
       \<lparr>items = 1000, workers = 2, working_set = 100, working_set_access = 100,
        working_set_moving_docs = 0, key_fmtr = ''decimal'', creates = 2, reads = 1,
        updates = 1, deletes = 1, reads_and_updates = 2\<rparr>
       ''p'' ''mcrdcu''
       \<lparr>shared_curr_items = 1000, shared_deleted_items = 10, lock_count = 0\<rparr>
       [1, 2, 3, 4, 5]
     = (sh', g', Inr cmds)
     \<and> sh' = \<lparr>shared_curr_items = 1002, shared_deleted_items = 11, lock_count = 2\<rparr>
     \<and> key_numbers cb_create cmds = [1000, 1001]
     \<and> key_numbers cb_delete cmds = [12]
     \<and> length (key_numbers cb_read cmds) = 2
     \<and> length (key_numbers cb_update cmds) = 2"
proof -
  define nxt :: "nat list existing_keys" where
    "nxt = (\<lambda>g ci di b. case g of [] \<Rightarrow> ([], Inl ValueError)
                    | u # us \<Rightarrow> (us, UniformKey_next ''p'' ''decimal'' u ci di))"
  define ws where "ws = \<lparr>items = 1000, workers = 2, working_set = 100, working_set_access = 100,
        working_set_moving_docs = 0, key_fmtr = ''decimal'', creates = 2, reads = 1,
        updates = 1, deletes = 1, reads_and_updates = 2\<rparr>"
  define sh where "sh = \<lparr>shared_curr_items = 1000, shared_deleted_items = 10, lock_count = 0\<rparr>"
  have h: "random_ops ws ''mcrdcu''"
    by (simp add: random_ops_def ordered_ops_def ws_def eval_nat_numeral)
  obtain sh' g' res where
    gen: "gen_cmd_sequence nxt number ws ''p'' ''mcrdcu'' sh [1, 2, 3, 4, 5] = (sh', g', res)"
    by (cases "gen_cmd_sequence nxt number ws ''p'' ''mcrdcu'' sh [1, 2, 3, 4, 5]")
  have "\<exists>cmds. snd (snd (gen_cmd_sequence nxt number ws ''p'' ''mcrdcu'' sh [1, 2, 3, 4, 5]))
      = Inr cmds"
    by (simp add: gen_cmd_sequence_def reserve_new_keys_def reserve_deleted_keys_def
        read_args_def update_args_def modify_args_def UniformKey_next_def randrange_def
        nxt_def ws_def sh_def)
  then obtain cmds where res: "res = Inr cmds" using gen by auto
  note t = gen_cmd_sequence_batch [OF h, where nxt = nxt and docs = number
      and pfx = "''p''" and sh = sh and g = "[1, 2, 3, 4, 5]"]
  have a: "sh' = \<lparr>shared_curr_items = 1002, shared_deleted_items = 11, lock_count = 2\<rparr>"
    using t unfolding gen by (simp add: ws_def sh_def)
  have b: "key_numbers cb_create cmds = [1000, 1001]"
    "key_numbers cb_delete cmds = [12]"
    "length (key_numbers cb_read cmds) = 2"
    "length (key_numbers cb_update cmds) = 2"
    using t unfolding gen res by (simp_all add: ws_def sh_def Let_def upt_conv_Cons)
  from gen res a b show ?thesis unfolding nxt_def ws_def sh_def by blast
qed

text \<open>
  The claim C4 as stated fails for a workload without creates and deletes: the call takes
  the lock zero times and makes no reservation.
\<close>

theorem gen_cmd_sequence_no_creates_no_lock:
  "gen_cmd_sequence (\<lambda>g ci di b. (g, UniformKey_next ''p'' ''decimal'' g ci di)) number
     \<lparr>items = 1000, workers = 1, working_set = 100, working_set_access = 100,
      working_set_moving_docs = 0, key_fmtr = ''decimal'', creates = 0, reads = 1,
      updates = 0, deletes = 0, reads_and_updates = 0\<rparr>
     ''p'' ''r''
     \<lparr>shared_curr_items = 1000, shared_deleted_items = 0, lock_count = 0\<rparr> (7::nat)
   = (\<lparr>shared_curr_items = 1000, shared_deleted_items = 0, lock_count = 0\<rparr>, 7,
      Inr [(''get'', cb_read,
            \<lparr>number = 7, prefix = ''p'', hit = False, fmtr = ''decimal''\<rparr>, None)])"
  by (simp add: gen_cmd_sequence_def reserve_new_keys_def reserve_deleted_keys_def
      read_args_def UniformKey_next_def randrange_def Key_init_def)

lemma exec_cmds_exc_rsv:
  "snd (exec_cmds call cmds rsv) = snd (exec_cmds call cmds rsv')"
proof (induction cmds arbitrary: rsv rsv')
  case Nil
  then show ?case by simp
next
  case (Cons c cs)
  show ?case
  proof (cases "call c")
    case (Inl e)
    then show ?thesis by simp
  next
    case (Inr l)
    then show ?thesis using Cons.IH by (cases l) simp_all
  qed
qed

lemma do_batch_exc: "snd (do_batch call g rsv) = snd (do_batch call g [])"
  by (cases g) (simp_all add: do_batch_def exec_cmds_exc_rsv [of call _ rsv "[]"])

lemma exec_cmds_completes:
  "(snd (exec_cmds call cmds rsv) = None) = (\<forall>c\<in>set cmds. \<exists>l. call c = Inr l)"
proof (induction cmds arbitrary: rsv)
  case Nil
  then show ?case by simp
next
  case (Cons c cs)
  show ?case
  proof (cases "call c")
    case (Inl e)
    then show ?thesis by simp
  next
    case (Inr l)
    then show ?thesis using Cons.IH by (cases l) simp_all
  qed
qed

lemma exec_cmds_raises:
  assumes "\<forall>x\<in>set pre. \<exists>l. call x = Inr l" and "call c = Inl e"
  shows "snd (exec_cmds call (pre @ c # post) rsv) = Some e"
  using assms(1)
proof (induction pre arbitrary: rsv)
  case Nil
  then show ?case using assms(2) by simp
next
  case (Cons x xs)
  then obtain l where l: "call x = Inr l" by auto
  from Cons have "snd (exec_cmds call (xs @ c # post) r) = Some e" for r by simp
  then show ?case using l by (cases l) simp_all
qed

lemma batch_exc_cases:
  "(gen j = Inl e' \<longrightarrow> batch_exc call gen j = Some (OtherException e'))
   \<and> (gen j = Inr (pre @ c # post) \<and> (\<forall>x\<in>set pre. \<exists>l. call x = Inr l) \<and> call c = Inl e
        \<longrightarrow> batch_exc call gen j = Some e)
   \<and> ((batch_exc call gen j = None)
        = (\<exists>cmds. gen j = Inr cmds \<and> (\<forall>c\<in>set cmds. \<exists>l. call c = Inr l)))"
proof (intro conjI impI)
  assume "gen j = Inl e'"
  then show "batch_exc call gen j = Some (OtherException e')"
    by (simp add: batch_exc_def do_batch_def)
next
  assume "gen j = Inr (pre @ c # post) \<and> (\<forall>x\<in>set pre. \<exists>l. call x = Inr l) \<and> call c = Inl e"
  then show "batch_exc call gen j = Some e"
    using exec_cmds_raises [of pre call c e post "[]"]
    by (simp add: batch_exc_def do_batch_def)
next
  show "(batch_exc call gen j = None)
      = (\<exists>cmds. gen j = Inr cmds \<and> (\<forall>c\<in>set cmds. \<exists>l. call c = Inr l))"
    by (cases "gen j") (simp_all add: batch_exc_def do_batch_def exec_cmds_completes)
qed

lemma do_batch_at:
  "do_batch call (gen j) (rsv_before call gen j)
     = (rsv_before call gen (Suc j), batch_exc call gen j)"
  using do_batch_exc [of call "gen j" "rsv_before call gen j"]
  by (simp add: batch_exc_def prod_eq_iff)

lemma run_loop_advance:
  assumes "\<forall>i<j. loop_continues ops stop gen call c0 i"
  shows "run_loop (j + fuel) ops stop gen call 0 c0 []
       = run_loop fuel ops stop gen call j (c0 + BATCH_SIZE * j) (rsv_before call gen j)"
  using assms
proof (induction j arbitrary: fuel)
  case 0
  then show ?case by simp
next
  case (Suc j)
  then have prev: "\<forall>i<j. loop_continues ops stop gen call c0 i"
    and this_one: "loop_continues ops stop gen call c0 j" by simp_all
  have "run_loop (Suc j + fuel) ops stop gen call 0 c0 []
      = run_loop (j + Suc fuel) ops stop gen call 0 c0 []" by simp
  also have "\<dots> = run_loop (Suc fuel) ops stop gen call j (c0 + BATCH_SIZE * j)
      (rsv_before call gen j)"
    using prev by (rule Suc.IH)
  also have "\<dots> = run_loop fuel ops stop gen call (Suc j) (c0 + BATCH_SIZE * Suc j)
      (rsv_before call gen (Suc j))"
    using this_one
    by (simp add: loop_continues_def do_batch_at ac_simps del: rsv_before.simps)
  finally show ?case .
qed

lemma run_ends_normally:
  assumes "\<forall>i<j. loop_continues ops stop gen call c0 i"
    and "\<not> run_condition ops (c0 + BATCH_SIZE * j) (stop j)"
  shows "run (Suc (j + fuel)) ops stop gen call c0
       = Some \<lparr>final_ops = c0 + BATCH_SIZE * j, log_lines = [Started, Finished],
               dumped = Some (rsv_before call gen j), raised = None\<rparr>"
proof -
  have "run_loop (Suc (j + fuel)) ops stop gen call 0 c0 []
      = run_loop (Suc fuel) ops stop gen call j (c0 + BATCH_SIZE * j) (rsv_before call gen j)"
    using run_loop_advance [OF assms(1), of "Suc fuel"] by simp
  also have "\<dots> = Some (c0 + BATCH_SIZE * j, rsv_before call gen j, None)"
    using assms(2) by simp
  finally show ?thesis by (simp add: run_def)
qed

lemma run_batch_raises:
  assumes "\<forall>i<j. loop_continues ops stop gen call c0 i"
    and "run_condition ops (c0 + BATCH_SIZE * j) (stop j)"
    and "batch_exc call gen j = Some e"
  shows "run (Suc (j + fuel)) ops stop gen call c0
       = Some (if e = KeyboardInterrupt
               then \<lparr>final_ops = c0 + BATCH_SIZE * Suc j, log_lines = [Started, Interrupted],
                     dumped = Some (rsv_before call gen (Suc j)), raised = None\<rparr>
               else \<lparr>final_ops = c0 + BATCH_SIZE * Suc j, log_lines = [Started],
                     dumped = None, raised = Some e\<rparr>)"
proof -
  have "run_loop (Suc (j + fuel)) ops stop gen call 0 c0 []
      = run_loop (Suc fuel) ops stop gen call j (c0 + BATCH_SIZE * j) (rsv_before call gen j)"
    using run_loop_advance [OF assms(1), of "Suc fuel"] by simp
  also have "\<dots> = Some (c0 + BATCH_SIZE * Suc j, rsv_before call gen (Suc j), Some e)"
    using assms(2,3)
    by (simp add: do_batch_at ac_simps del: rsv_before.simps)
  finally show ?thesis by (cases e) (simp_all add: run_def)
qed

lemma run_out_of_fuel:
  "(run fuel ops stop gen call c0 = None) = (\<forall>i<fuel. loop_continues ops stop gen call c0 i)"
proof
  assume all: "\<forall>i<fuel. loop_continues ops stop gen call c0 i"
  from run_loop_advance [OF this, of 0] show "run fuel ops stop gen call c0 = None"
    by (simp add: run_def)
next
  assume none: "run fuel ops stop gen call c0 = None"
  show "\<forall>i<fuel. loop_continues ops stop gen call c0 i"
  proof (rule ccontr)
    assume "\<not> (\<forall>i<fuel. loop_continues ops stop gen call c0 i)"
    then have ex: "\<exists>i. i < fuel \<and> \<not> loop_continues ops stop gen call c0 i" by blast
    define j where "j = (LEAST i. i < fuel \<and> \<not> loop_continues ops stop gen call c0 i)"
    have j: "j < fuel" "\<not> loop_continues ops stop gen call c0 j"
      using LeastI_ex [OF ex] by (simp_all add: j_def)
    have before: "\<forall>i<j. loop_continues ops stop gen call c0 i"
    proof (intro allI impI)
      fix i assume "i < j"
      then have "\<not> (i < fuel \<and> \<not> loop_continues ops stop gen call c0 i)"
        unfolding j_def by (rule not_less_Least)
      then show "loop_continues ops stop gen call c0 i" using \<open>i < j\<close> j(1) by simp
    qed
    obtain f where f: "fuel = Suc (j + f)" using j(1) by (metis less_iff_Suc_add)
    show False
    proof (cases "run_condition ops (c0 + BATCH_SIZE * j) (stop j)")
      case False
      from run_ends_normally [OF before False, of f] none f show False by simp
    next
      case True
      then obtain e where "batch_exc call gen j = Some e"
        using j(2) by (auto simp: loop_continues_def)
      from run_batch_raises [OF before True this, of f] none f show False by simp
    qed
  qed
qed

lemma run_finite_ops_ends:
  assumes "n \<le> c0 + BATCH_SIZE * f"
  shows "run (Suc f) (enat n) stop gen call c0 \<noteq> None"
proof
  assume "run (Suc f) (enat n) stop gen call c0 = None"
  then have "loop_continues (enat n) stop gen call c0 f"
    by (simp add: run_out_of_fuel)
  then show False using assms by (simp add: loop_continues_def run_condition_def)
qed

text \<open>
  C8 (as amended). The synchronous run loop goes on as long as each iteration is entered
  and its batch completes. When the run condition fails at iteration \<open>j\<close>, that is when
  the operation count is exhausted or the shutdown event is set, \<open>run\<close> logs \<open>Finished\<close>,
  dumps the samples and returns. When the batch of iteration \<open>j\<close> raises
  \<open>KeyboardInterrupt\<close>, \<open>run\<close> logs \<open>Interrupted\<close>, dumps the samples and returns without
  raising. When it raises any other exception, the exception leaves \<open>run\<close>, ending the
  worker, and the samples are not dumped. A batch raises when \<open>gen_cmd_sequence\<close> raises or
  when the first failing client call of its command sequence raises, and completes only
  when every call returns. These are all the ways a run ends: the fuel runs out exactly
  when every iteration so far went on, and with a finite operation count that cannot
  last.
\<close>

theorem run_exit_paths:
  "((\<forall>i<j. loop_continues ops stop gen call c0 i)
      \<and> \<not> run_condition ops (c0 + BATCH_SIZE * j) (stop j) \<longrightarrow>
    run (Suc (j + fuel)) ops stop gen call c0
      = Some \<lparr>final_ops = c0 + BATCH_SIZE * j, log_lines = [Started, Finished],
              dumped = Some (rsv_before call gen j), raised = None\<rparr>)
   \<and> ((\<forall>i<j. loop_continues ops stop gen call c0 i)
      \<and> run_condition ops (c0 + BATCH_SIZE * j) (stop j)
      \<and> batch_exc call gen j = Some e \<longrightarrow>
    run (Suc (j + fuel)) ops stop gen call c0
      = Some (if e = KeyboardInterrupt
              then \<lparr>final_ops = c0 + BATCH_SIZE * Suc j, log_lines = [Started, Interrupted],
                    dumped = Some (rsv_before call gen (Suc j)), raised = None\<rparr>
              else \<lparr>final_ops = c0 + BATCH_SIZE * Suc j, log_lines = [Started],
                    dumped = None, raised = Some e\<rparr>))
   \<and> (run_condition ops c s = (enat c < ops \<and> \<not> s))
   \<and> (gen j = Inl e' \<longrightarrow> batch_exc call gen j = Some (OtherException e'))
   \<and> (gen j = Inr (pre @ x # post) \<and> (\<forall>y\<in>set pre. \<exists>l. call y = Inr l) \<and> call x = Inl e
        \<longrightarrow> batch_exc call gen j = Some e)
   \<and> ((batch_exc call gen j = None)
        = (\<exists>cmds. gen j = Inr cmds \<and> (\<forall>y\<in>set cmds. \<exists>l. call y = Inr l)))
   \<and> ((run n ops stop gen call c0 = None) = (\<forall>i<n. loop_continues ops stop gen call c0 i))
   \<and> (m \<le> c0 + BATCH_SIZE * f \<longrightarrow> run (Suc f) (enat m) stop gen call c0 \<noteq> None)"
proof (intro conjI impI)
  assume "(\<forall>i<j. loop_continues ops stop gen call c0 i)
      \<and> \<not> run_condition ops (c0 + BATCH_SIZE * j) (stop j)"
  then show "run (Suc (j + fuel)) ops stop gen call c0
      = Some \<lparr>final_ops = c0 + BATCH_SIZE * j, log_lines = [Started, Finished],
              dumped = Some (rsv_before call gen j), raised = None\<rparr>"
    using run_ends_normally by blast
next
  assume "(\<forall>i<j. loop_continues ops stop gen call c0 i)
      \<and> run_condition ops (c0 + BATCH_SIZE * j) (stop j)
      \<and> batch_exc call gen j = Some e"
  then show "run (Suc (j + fuel)) ops stop gen call c0
      = Some (if e = KeyboardInterrupt
              then \<lparr>final_ops = c0 + BATCH_SIZE * Suc j, log_lines = [Started, Interrupted],
                    dumped = Some (rsv_before call gen (Suc j)), raised = None\<rparr>
              else \<lparr>final_ops = c0 + BATCH_SIZE * Suc j, log_lines = [Started],
                    dumped = None, raised = Some e\<rparr>)"
    using run_batch_raises by blast
next
  show "run_condition ops c s = (enat c < ops \<and> \<not> s)" by (simp add: run_condition_def)
next
  assume "gen j = Inl e'"
  then show "batch_exc call gen j = Some (OtherException e')"
    using batch_exc_cases [of gen j e' call] by blast
next
  assume "gen j = Inr (pre @ x # post) \<and> (\<forall>y\<in>set pre. \<exists>l. call y = Inr l) \<and> call x = Inl e"
  then show "batch_exc call gen j = Some e"
    using batch_exc_cases [of gen j _ call pre x post e] by blast
next
  show "(batch_exc call gen j = None)
      = (\<exists>cmds. gen j = Inr cmds \<and> (\<forall>y\<in>set cmds. \<exists>l. call y = Inr l))"
    using batch_exc_cases [of gen j _ call] by blast
next
  show "(run n ops stop gen call c0 = None) = (\<forall>i<n. loop_continues ops stop gen call c0 i)"
    by (rule run_out_of_fuel)
next
  assume "m \<le> c0 + BATCH_SIZE * f"
  then show "run (Suc f) (enat m) stop gen call c0 \<noteq> None" by (rule run_finite_ops_ends)
qed

theorem run_exit_paths_witness:
  "run (Suc (1 + 2)) (enat 250) (\<lambda>i. False) (\<lambda>i. Inr [(''get'', i)])
     (\<lambda>(n, a). if a = 1 then Inl KeyboardInterrupt else Inr (Some (a::nat))) 0
   = Some \<lparr>final_ops = 200, log_lines = [Started, Interrupted],
           dumped = Some [(''get'', 0)], raised = None\<rparr>
   \<and> run (Suc (1 + 2)) \<infinity> (\<lambda>i. i = 1) (\<lambda>i. Inr [(''get'', i)])
     (\<lambda>(n, a). Inr (Some (a::nat))) 0
   = Some \<lparr>final_ops = 100, log_lines = [Started, Finished],
           dumped = Some [(''get'', 0)], raised = None\<rparr>"
proof -
  define gen :: "nat \<Rightarrow> error + (string \<times> nat) list" where "gen = (\<lambda>i. Inr [(''get'', i)])"
  define call1 :: "string \<times> nat \<Rightarrow> exc + nat option" where
    "call1 = (\<lambda>(n, a). if a = 1 then Inl KeyboardInterrupt else Inr (Some a))"
  define call2 :: "string \<times> nat \<Rightarrow> exc + nat option" where
    "call2 = (\<lambda>(n, a). Inr (Some a))"
  have r: "rsv_before call1 gen (Suc 1) = [(''get'', 0)]"
    "rsv_before call2 gen 1 = [(''get'', 0)]"
    by (simp_all add: gen_def call1_def call2_def do_batch_def)
  have h1: "(\<forall>i<1. loop_continues (enat 250) (\<lambda>i. False) gen call1 0 i)
      \<and> run_condition (enat 250) (0 + BATCH_SIZE * 1) False
      \<and> batch_exc call1 gen 1 = Some KeyboardInterrupt"
    by (simp add: loop_continues_def run_condition_def batch_exc_def do_batch_def
        BATCH_SIZE_def gen_def call1_def)
  have h2: "(\<forall>i<1. loop_continues \<infinity> (\<lambda>i. i = 1) gen call2 0 i)
      \<and> \<not> run_condition \<infinity> (0 + BATCH_SIZE * 1) (1 = (1::nat))"
    by (simp add: loop_continues_def run_condition_def batch_exc_def do_batch_def
        BATCH_SIZE_def gen_def call2_def)
  note t1 = run_exit_paths [where j = 1 and ops = "enat 250" and stop = "\<lambda>i. False"
      and gen = gen and call = call1 and ?c0.0 = 0 and fuel = 2 and e = KeyboardInterrupt]
  note t2 = run_exit_paths [where j = 1 and ops = "\<infinity>" and stop = "\<lambda>i. i = 1"
      and gen = gen and call = call2 and ?c0.0 = 0 and fuel = 2]
  from t1 h1 have a: "run (Suc (1 + 2)) (enat 250) (\<lambda>i. False) gen call1 0
      = Some \<lparr>final_ops = 0 + BATCH_SIZE * Suc 1, log_lines = [Started, Interrupted],
              dumped = Some (rsv_before call1 gen (Suc 1)), raised = None\<rparr>"
    by simp
  from t2 h2 have b: "run (Suc (1 + 2)) \<infinity> (\<lambda>i. i = 1) gen call2 0
      = Some \<lparr>final_ops = 0 + BATCH_SIZE * 1, log_lines = [Started, Finished],
              dumped = Some (rsv_before call2 gen 1), raised = None\<rparr>"
    by simp
  from a b show ?thesis
    unfolding r by (simp add: BATCH_SIZE_def gen_def call1_def call2_def)
qed

text \<open>
  The claim C8 as stated fails: when an operation of the second batch raises
  \<open>ValueError\<close>, the exception leaves \<open>run\<close>, the worker ends, and \<open>dump_stats\<close> is not
  reached.
\<close>

theorem run_operation_error_propagates:
  "run 10 (enat 250) (\<lambda>i. False) (\<lambda>i. Inr [(''get'', i)])
     (\<lambda>(n, a). if a = 1 then Inl (OtherException ValueError) else Inr (Some (a::nat))) 0
   = Some \<lparr>final_ops = 200, log_lines = [Started], dumped = None,
           raised = Some (OtherException ValueError)\<rparr>"
  by (simp add: run_def run_condition_def do_batch_def BATCH_SIZE_def eval_nat_numeral)

end
